theory Spec2Isabelle
  imports Main "HOL-Library.Multiset" "HOL-Library.Product_Lexorder"
begin

section \<open>Job application tracker: the records\<close>

text \<open>
  The development follows \<^verbatim>\<open>src/main.py\<close>: the class \<^verbatim>\<open>JobApplication\<close> (constructor
  and \<^verbatim>\<open>__lt__\<close>) and the class \<^verbatim>\<open>JobTracker\<close> (a \<^verbatim>\<open>heapq\<close> list and a dictionary
  that share the application objects).

  Python values are modelled as follows: \<^verbatim>\<open>str\<close> as \<open>string\<close> (characters with code
  below 256; among them the class \<^verbatim>\<open>\d\<close> of Python's \<^verbatim>\<open>re\<close> is exactly \<^verbatim>\<open>0\<close> to
  \<^verbatim>\<open>9\<close>), \<^verbatim>\<open>int\<close> as \<open>int\<close>, and a \<^verbatim>\<open>datetime\<close> as the triple (year, month, day):
  every deadline comes from \<^verbatim>\<open>strptime\<close> with the format \<^verbatim>\<open>%Y-%m-%d\<close>, so its time
  fields are zero and two deadlines compare as their triples do, lexicographically.
\<close>

type_synonym datetime = "nat \<times> nat \<times> nat"

datatype error = InvalidDeadlineFormat | InvalidImportance | KeyError | IndexError

record JobApplication =
  company :: string
  position :: string
  deadline :: datetime
  importance :: int
  status :: string

definition VALID_STATUSES :: "string set" where
  "VALID_STATUSES = {''Pending'', ''Processed'', ''Interviewing'', ''Rejected''}"

subsection \<open>\<^verbatim>\<open>datetime.strptime(deadline, "%Y-%m-%d")\<close>\<close>

text \<open>
  The library call is modelled after CPython's \<^verbatim>\<open>_strptime\<close>. The format is compiled to the
  regular expression
  \<^verbatim>\<open>(?P<Y>\d\d\d\d)-(?P<m>1[0-2]|0[1-9]|[1-9])-(?P<d>3[0-1]|[1-2]\d|0[1-9]|[1-9]| [1-9])\<close>,
  which is matched at the start of the string; the call raises \<^verbatim>\<open>ValueError\<close> when there is
  no match, when the match does not reach the end of the string, and when the three numbers
  are not a date of the calendar (the \<^verbatim>\<open>date\<close> constructor checks the year against
  \<^verbatim>\<open>MINYEAR = 1\<close> and the day against the length of the month).

  Each matcher returns the list of its successes, in the order in which a backtracking
  matcher tries the alternatives: a success is the matched text and the rest of the input.
\<close>

definition digits :: string where
  "digits = ''0123456789''"

definition nonzero_digits :: string where
  "nonzero_digits = ''123456789''"

definition one_char :: "string \<Rightarrow> string \<Rightarrow> (string \<times> string) list" where
  "one_char A s = (case s of a # rest \<Rightarrow> if a \<in> set A then [([a], rest)] else [] | [] \<Rightarrow> [])"

definition two_chars :: "string \<Rightarrow> string \<Rightarrow> string \<Rightarrow> (string \<times> string) list" where
  "two_chars A B s =
     (case s of
        a # b # rest \<Rightarrow> if a \<in> set A \<and> b \<in> set B then [([a, b], rest)] else []
      | _ \<Rightarrow> [])"

fun match_Y :: "string \<Rightarrow> (string \<times> string) list" where
  "match_Y (a # b # c # d # rest) =
     (if a \<in> set digits \<and> b \<in> set digits \<and> c \<in> set digits \<and> d \<in> set digits
      then [([a, b, c, d], rest)] else [])"
| "match_Y _ = []"

definition match_m :: "string \<Rightarrow> (string \<times> string) list" where
  "match_m s = two_chars ''1'' ''012'' s @ two_chars ''0'' nonzero_digits s @ one_char nonzero_digits s"

definition match_d :: "string \<Rightarrow> (string \<times> string) list" where
  "match_d s = two_chars ''3'' ''01'' s @ two_chars ''12'' digits s @ two_chars ''0'' nonzero_digits s
                 @ one_char nonzero_digits s @ two_chars '' '' nonzero_digits s"

definition match_hyphen :: "string \<Rightarrow> string list" where
  "match_hyphen s = (case s of c # rest \<Rightarrow> if c = CHR ''-'' then [rest] else [] | [] \<Rightarrow> [])"

definition regex_matches :: "string \<Rightarrow> (string \<times> string \<times> string \<times> string) list" where
  "regex_matches s =
     [(Y, m, d, r4). (Y, r0) \<leftarrow> match_Y s, r1 \<leftarrow> match_hyphen r0, (m, r2) \<leftarrow> match_m r1,
                     r3 \<leftarrow> match_hyphen r2, (d, r4) \<leftarrow> match_d r3]"

text \<open>\<^verbatim>\<open>int(text)\<close> on a matched group: decimal digits, after an optional blank.\<close>

definition digit_value :: "char \<Rightarrow> nat" where
  "digit_value c = of_char c - 48"

definition py_int :: "string \<Rightarrow> nat" where
  "py_int s = foldl (\<lambda>n c. 10 * n + digit_value c) 0 (dropWhile (\<lambda>c. c = CHR '' '') s)"

definition is_leap :: "nat \<Rightarrow> bool" where
  "is_leap y = (y mod 4 = 0 \<and> (y mod 100 \<noteq> 0 \<or> y mod 400 = 0))"

definition days_in_month :: "nat \<Rightarrow> nat \<Rightarrow> nat" where
  "days_in_month y m =
     (if m = 2 then (if is_leap y then 29 else 28)
      else if m \<in> {4, 6, 9, 11} then 30 else 31)"

definition valid_date :: "nat \<Rightarrow> nat \<Rightarrow> nat \<Rightarrow> bool" where
  "valid_date y m d = (1 \<le> y \<and> y \<le> 9999 \<and> 1 \<le> m \<and> m \<le> 12 \<and> 1 \<le> d \<and> d \<le> days_in_month y m)"

definition strptime :: "string \<Rightarrow> datetime option" where
  "strptime s =
     (case regex_matches s of
        [] \<Rightarrow> None
      | (Y, m, d, rest) # _ \<Rightarrow>
          if rest \<noteq> [] then None
          else if valid_date (py_int Y) (py_int m) (py_int d)
          then Some (py_int Y, py_int m, py_int d) else None)"

subsection \<open>\<^verbatim>\<open>JobApplication.__init__\<close> and \<^verbatim>\<open>JobApplication.__lt__\<close>\<close>

definition JobApplication_init :: "string \<Rightarrow> string \<Rightarrow> string \<Rightarrow> int \<Rightarrow> error + JobApplication" where
  "JobApplication_init c p dl imp =
     (case strptime dl of
        None \<Rightarrow> Inl InvalidDeadlineFormat
      | Some d \<Rightarrow>
          if imp \<le> 0 then Inl InvalidImportance
          else Inr \<lparr>company = c, position = p, deadline = d, importance = imp,
                    status = ''Pending''\<rparr>)"

definition lt :: "JobApplication \<Rightarrow> JobApplication \<Rightarrow> bool" where
  "lt self other =
     (if importance self = importance other then deadline self < deadline other
      else importance self > importance other)"

section \<open>The priority queue of the library (\<^verbatim>\<open>heapq\<close>, \<^verbatim>\<open>sorted\<close>)\<close>

text \<open>
  \<^verbatim>\<open>heapq\<close> keeps a binary heap in a Python list and compares items with \<^verbatim>\<open><\<close> only,
  that is with \<^verbatim>\<open>__lt__\<close>. The functions below follow \<^verbatim>\<open>heapq.py\<close>: each loop is a
  recursive function that carries the list, and the comparison is the parameter
  \<open>cmp\<close>. Every index they read is in range: \<^verbatim>\<open>_siftdown\<close> starts at a position of
  the list and moves to parents, \<^verbatim>\<open>_siftup\<close> tests each child position against
  \<^verbatim>\<open>endpos\<close> before reading it.
\<close>

function siftdown_loop :: "('a \<Rightarrow> 'a \<Rightarrow> bool) \<Rightarrow> 'a \<Rightarrow> 'a list \<Rightarrow> nat \<Rightarrow> nat \<Rightarrow> 'a list" where
  "siftdown_loop cmp newitem heap startpos pos =
     (if pos > startpos then
        (let parentpos = (pos - 1) div 2; parent = heap ! parentpos
         in if cmp newitem parent
            then siftdown_loop cmp newitem (heap[pos := parent]) startpos parentpos
            else heap[pos := newitem])
      else heap[pos := newitem])"
  by pat_completeness auto
termination
  by (relation "measure (\<lambda>(cmp, newitem, heap, startpos, pos). pos)") auto

definition siftdown :: "('a \<Rightarrow> 'a \<Rightarrow> bool) \<Rightarrow> 'a list \<Rightarrow> nat \<Rightarrow> nat \<Rightarrow> 'a list" where
  "siftdown cmp heap startpos pos = siftdown_loop cmp (heap ! pos) heap startpos pos"

text \<open>The loop of \<^verbatim>\<open>_siftup\<close> returns the list and the leaf position it stopped at.\<close>

function siftup_loop :: "('a \<Rightarrow> 'a \<Rightarrow> bool) \<Rightarrow> 'a list \<Rightarrow> nat \<Rightarrow> nat \<Rightarrow> 'a list \<times> nat" where
  "siftup_loop cmp heap endpos pos =
     (let childpos = 2 * pos + 1
      in if childpos < endpos then
           (let rightpos = childpos + 1;
                childpos' = (if rightpos < endpos \<and> \<not> cmp (heap ! childpos) (heap ! rightpos)
                             then rightpos else childpos)
            in siftup_loop cmp (heap[pos := heap ! childpos']) endpos childpos')
         else (heap, pos))"
  by pat_completeness auto
termination
  by (relation "measure (\<lambda>(cmp, heap, endpos, pos). endpos - pos)") (auto simp: Let_def)

declare siftdown_loop.simps [simp del] siftup_loop.simps [simp del]

definition siftup :: "('a \<Rightarrow> 'a \<Rightarrow> bool) \<Rightarrow> 'a list \<Rightarrow> nat \<Rightarrow> 'a list" where
  "siftup cmp heap pos =
     (let endpos = length heap; startpos = pos; newitem = heap ! pos;
          (heap', pos') = siftup_loop cmp heap endpos pos
      in siftdown cmp (heap'[pos' := newitem]) startpos pos')"

definition heappush :: "('a \<Rightarrow> 'a \<Rightarrow> bool) \<Rightarrow> 'a list \<Rightarrow> 'a \<Rightarrow> 'a list" where
  "heappush cmp heap item = siftdown cmp (heap @ [item]) 0 (length (heap @ [item]) - 1)"

definition heappop :: "('a \<Rightarrow> 'a \<Rightarrow> bool) \<Rightarrow> 'a list \<Rightarrow> error + 'a \<times> 'a list" where
  "heappop cmp heap =
     (if heap = [] then Inl IndexError
      else (let lastelt = last heap; heap' = butlast heap
            in if heap' \<noteq> [] then
                 (let returnitem = heap' ! 0
                  in Inr (returnitem, siftup cmp (heap'[0 := lastelt]) 0))
               else Inr (lastelt, heap')))"

text \<open>
  \<^verbatim>\<open>sorted\<close> is a stable sort that compares with \<^verbatim>\<open><\<close> only. The model is the stable
  insertion sort; on a comparison that is a strict weak ordering every stable sort returns
  the same list.
\<close>

fun insert_sorted :: "('a \<Rightarrow> 'a \<Rightarrow> bool) \<Rightarrow> 'a \<Rightarrow> 'a list \<Rightarrow> 'a list" where
  "insert_sorted cmp x [] = [x]"
| "insert_sorted cmp x (y # ys) =
     (if cmp y x then y # insert_sorted cmp x ys else x # y # ys)"

definition sorted_py :: "('a \<Rightarrow> 'a \<Rightarrow> bool) \<Rightarrow> 'a list \<Rightarrow> 'a list" where
  "sorted_py cmp xs = foldr (insert_sorted cmp) xs []"

section \<open>The tracker\<close>

text \<open>
  The heap list and the dictionary of a \<^verbatim>\<open>JobTracker\<close> hold references to the same
  \<^verbatim>\<open>JobApplication\<close> objects, and \<^verbatim>\<open>update_status\<close> and
  \<^verbatim>\<open>process_next_application\<close> assign to the \<^verbatim>\<open>status\<close> of an object through one of
  them. The state therefore has a store \<open>objs\<close> from references to objects; \<open>next_ref\<close> is
  the reference the next constructed object gets. References that were never allocated hold
  a blank record that no operation reads.
\<close>

type_synonym ref = nat

record JobTracker =
  objs :: "ref \<Rightarrow> JobApplication"
  next_ref :: ref
  job_heap :: "ref list"
  jobs :: "string \<times> string \<rightharpoonup> ref"

definition blank :: JobApplication where
  "blank = \<lparr>company = [], position = [], deadline = (0, 0, 0), importance = 0, status = []\<rparr>"

definition JobTracker_init :: JobTracker where
  "JobTracker_init = \<lparr>objs = (\<lambda>r. blank), next_ref = 0, job_heap = [], jobs = Map.empty\<rparr>"

text \<open>Comparing two references compares the objects they point to, with \<^verbatim>\<open>__lt__\<close>.\<close>

definition less_ref :: "(ref \<Rightarrow> JobApplication) \<Rightarrow> ref \<Rightarrow> ref \<Rightarrow> bool" where
  "less_ref store a b = lt (store a) (store b)"

text \<open>What a method prints, for the methods whose return value does not tell.\<close>

datatype add_output = Added | Error error

datatype update_output = NotFound | InvalidStatus | Updated

definition add_application ::
  "JobTracker \<Rightarrow> string \<Rightarrow> string \<Rightarrow> string \<Rightarrow> int \<Rightarrow> add_output \<times> JobTracker" where
  "add_application t c p dl imp =
     (case JobApplication_init c p dl imp of
        Inl e \<Rightarrow> (Error e, t)
      | Inr job \<Rightarrow>
          (let r = next_ref t;
               store = (objs t)(r := job)
           in (Added,
               t\<lparr>objs := store, next_ref := r + 1,
                 job_heap := heappush (less_ref store) (job_heap t) r,
                 jobs := (jobs t)((c, p) \<mapsto> r)\<rparr>)))"

text \<open>
  \<^verbatim>\<open>process_next_application\<close> returns \<^verbatim>\<open>None\<close> or the popped object, or raises. The
  \<^verbatim>\<open>del\<close> statement raises \<^verbatim>\<open>KeyError\<close> when the key is not in the dictionary; by then
  the object has left the heap and has the status \<^verbatim>\<open>Processed\<close>, and the state keeps both
  changes.
\<close>

definition process_next_application :: "JobTracker \<Rightarrow> (error + ref option) \<times> JobTracker" where
  "process_next_application t =
     (if job_heap t = [] then (Inr None, t)
      else (case heappop (less_ref (objs t)) (job_heap t) of
              Inl e \<Rightarrow> (Inl e, t)
            | Inr (job, heap') \<Rightarrow>
                (let t1 = t\<lparr>job_heap := heap',
                            objs := (objs t)(job := (objs t job)\<lparr>status := ''Processed''\<rparr>)\<rparr>;
                     key = (company (objs t1 job), position (objs t1 job))
                 in if jobs t1 key = None then (Inl KeyError, t1)
                    else (Inr (Some job), t1\<lparr>jobs := (jobs t1)(key := None)\<rparr>))))"

text \<open>
  \<^verbatim>\<open>view_pending_applications\<close> prints; its result here is what it prints: \<open>None\<close> for
  the line \<^verbatim>\<open>No pending applications.\<close>, otherwise the objects in the order of the listing,
  each as it is in the store at that moment.
\<close>

definition pending_order :: "JobTracker \<Rightarrow> ref list" where
  "pending_order t = sorted_py (less_ref (objs t)) (job_heap t)"

definition view_pending_applications :: "JobTracker \<Rightarrow> JobApplication list option" where
  "view_pending_applications t =
     (if job_heap t = [] then None else Some (map (objs t) (pending_order t)))"

definition update_status ::
  "JobTracker \<Rightarrow> string \<Rightarrow> string \<Rightarrow> string \<Rightarrow> update_output \<times> JobTracker" where
  "update_status t c p new_status =
     (case jobs t (c, p) of
        None \<Rightarrow> (NotFound, t)
      | Some r \<Rightarrow>
          if new_status \<notin> VALID_STATUSES then (InvalidStatus, t)
          else (Updated, t\<lparr>objs := (objs t)(r := (objs t r)\<lparr>status := new_status\<rparr>)\<rparr>))"

subsection \<open>Sequences of calls\<close>

text \<open>
  A caller's sequence of calls, with what each call gave: the printed line of
  \<^verbatim>\<open>add_application\<close>, the value returned by \<^verbatim>\<open>process_next_application\<close>, or the
  exception that left the call. The caller goes on after an exception, with the tracker
  as the call left it.
\<close>

datatype call = Add string string string int | ProcessNext

datatype outcome = Printed add_output | Returned "ref option" | Raised error

fun do_call :: "JobTracker \<Rightarrow> call \<Rightarrow> outcome \<times> JobTracker" where
  "do_call t (Add c p dl imp) = (case add_application t c p dl imp of (out, t') \<Rightarrow> (Printed out, t'))"
| "do_call t ProcessNext =
     (case process_next_application t of
        (Inl e, t') \<Rightarrow> (Raised e, t')
      | (Inr r, t') \<Rightarrow> (Returned r, t'))"

fun run_calls :: "JobTracker \<Rightarrow> call list \<Rightarrow> outcome list \<times> JobTracker" where
  "run_calls t [] = ([], t)"
| "run_calls t (c # cs) =
     (case do_call t c of (out, t') \<Rightarrow> (case run_calls t' cs of (outs, t'') \<Rightarrow> (out # outs, t'')))"

subsection \<open>Sample values\<close>

definition sample_a :: JobApplication where
  "sample_a = \<lparr>company = ''Initech'', position = ''Ops'', deadline = (2025, 6, 1),
                importance = 8, status = ''Pending''\<rparr>"

definition sample_b :: JobApplication where
  "sample_b = \<lparr>company = ''Globex'', position = ''PM'', deadline = (2025, 5, 1),
                importance = 5, status = ''Pending''\<rparr>"

definition sample_c :: JobApplication where
  "sample_c = \<lparr>company = ''Acme'', position = ''Eng'', deadline = (2025, 6, 1),
                importance = 5, status = ''Pending''\<rparr>"

definition tracker_one :: JobTracker where
  "tracker_one = snd (add_application JobTracker_init ''Acme'' ''Eng'' ''2025-06-01'' 5)"

subsection \<open>Forms of a deadline string\<close>

text \<open>
  \<open>strict_form\<close> is the form four digits, hyphen, two digits, hyphen, two digits.
  \<open>accepted_deadline\<close> describes the strings that \<^verbatim>\<open>strptime\<close> takes with the format
  \<^verbatim>\<open>%Y-%m-%d\<close>: a year of four digits other than 0000, a hyphen, a month written
  1 to 9, 01 to 09 or 10 to 12, a hyphen, and a day written 1 to 9, 01 to 09, 10 to 31 or
  as a blank and one of 1 to 9, the day being a day of that month in that year.
\<close>


fun strict_form :: "string \<Rightarrow> bool" where
  "strict_form [y1, y2, y3, y4, h1, m1, m2, h2, d1, d2] =
     (set [y1, y2, y3, y4, m1, m2, d1, d2] \<subseteq> set digits \<and> h1 = CHR ''-'' \<and> h2 = CHR ''-'')"
| "strict_form _ = False"

fun month_text :: "string \<Rightarrow> bool" where
  "month_text [a] = (a \<in> set nonzero_digits)"
| "month_text [a, b] = (a = CHR ''0'' \<and> b \<in> set nonzero_digits \<or> a = CHR ''1'' \<and> b \<in> set ''012'')"
| "month_text _ = False"

fun day_text :: "string \<Rightarrow> bool" where
  "day_text [a] = (a \<in> set nonzero_digits)"
| "day_text [a, b] =
     (a \<in> set ''0 '' \<and> b \<in> set nonzero_digits \<or> a \<in> set ''12'' \<and> b \<in> set digits
      \<or> a = CHR ''3'' \<and> b \<in> set ''01'')"
| "day_text _ = False"

definition accepted_deadline :: "string \<Rightarrow> bool" where
  "accepted_deadline s =
     (\<exists>Y m d. s = Y @ ''-'' @ m @ ''-'' @ d \<and> length Y = 4 \<and> set Y \<subseteq> set digits
        \<and> month_text m \<and> day_text d
        \<and> py_int Y \<noteq> 0 \<and> py_int d \<le> days_in_month (py_int Y) (py_int m))"




subsection \<open>Deadline strings over all of Unicode\<close>

text \<open>
  A Python string is a sequence of Unicode code points, and the definitions of \<open>strptime\<close>
  above read it as a list of 8-bit characters, among which the decimal digits are
  \<^verbatim>\<open>0\<close> to \<^verbatim>\<open>9\<close>. Beyond them the library takes more: in a pattern over \<^verbatim>\<open>str\<close> the class
  \<^verbatim>\<open>\d\<close> matches every character with the Unicode property of a decimal digit, and
  \<^verbatim>\<open>int\<close> reads every such character with its value, so that \<^verbatim>\<open>2025-06-1\<close> followed by
  the Arabic-Indic digit five (code point 1637) is read as the 15th of June 2025. The classes
  \<^verbatim>\<open>[0-2]\<close>, \<^verbatim>\<open>[1-9]\<close> and the literal characters of the pattern match the ASCII characters
  only.

  The definitions of this subsection repeat the ones above for a string given as the list of
  its code points. Which code points are decimal digits, and with which value, depends on the
  version of Unicode the interpreter was built with; it is the parameter \<open>tbl\<close>, which gives
  the value of a decimal digit and \<open>None\<close> for every other code point.
  \<open>unicode_table tbl\<close> states what is used of it: the code points 48 to 57 (\<^verbatim>\<open>0\<close> to \<^verbatim>\<open>9\<close>)
  are decimal digits with the values 0 to 9, the code points 45 (the hyphen) and 32 (the
  blank) are not decimal digits, and every value is at most 9.
\<close>

type_synonym codepoints = "nat list"

definition unicode_table :: "(nat \<Rightarrow> nat option) \<Rightarrow> bool" where
  "unicode_table tbl =
     ((\<forall>c. 48 \<le> c \<and> c \<le> 57 \<longrightarrow> tbl c = Some (c - 48)) \<and> tbl 45 = None \<and> tbl 32 = None
      \<and> (\<forall>c d. tbl c = Some d \<longrightarrow> d \<le> 9))"

definition is_decimal :: "(nat \<Rightarrow> nat option) \<Rightarrow> nat \<Rightarrow> bool" where
  "is_decimal tbl c = (tbl c \<noteq> None)"

text \<open>
  The matchers: \<open>between 49 57\<close> is the class \<^verbatim>\<open>[1-9]\<close>, \<open>between 48 50\<close> is \<^verbatim>\<open>[0-2]\<close>,
  \<open>between 48 49\<close> is \<^verbatim>\<open>[0-1]\<close>, \<open>between 49 50\<close> is \<^verbatim>\<open>[1-2]\<close>, and \<open>is_decimal tbl\<close> is
  \<^verbatim>\<open>\d\<close>.
\<close>

definition between :: "nat \<Rightarrow> nat \<Rightarrow> nat \<Rightarrow> bool" where
  "between lo hi c = (lo \<le> c \<and> c \<le> hi)"

definition one_of :: "(nat \<Rightarrow> bool) \<Rightarrow> codepoints \<Rightarrow> (codepoints \<times> codepoints) list" where
  "one_of P s = (case s of a # rest \<Rightarrow> if P a then [([a], rest)] else [] | [] \<Rightarrow> [])"

definition two_of ::
  "(nat \<Rightarrow> bool) \<Rightarrow> (nat \<Rightarrow> bool) \<Rightarrow> codepoints \<Rightarrow> (codepoints \<times> codepoints) list" where
  "two_of P Q s =
     (case s of
        a # b # rest \<Rightarrow> if P a \<and> Q b then [([a, b], rest)] else []
      | _ \<Rightarrow> [])"

fun match_Y_u :: "(nat \<Rightarrow> nat option) \<Rightarrow> codepoints \<Rightarrow> (codepoints \<times> codepoints) list" where
  "match_Y_u tbl (a # b # c # d # rest) =
     (if is_decimal tbl a \<and> is_decimal tbl b \<and> is_decimal tbl c \<and> is_decimal tbl d
      then [([a, b, c, d], rest)] else [])"
| "match_Y_u tbl _ = []"

definition match_m_u :: "codepoints \<Rightarrow> (codepoints \<times> codepoints) list" where
  "match_m_u s = two_of (between 49 49) (between 48 50) s @ two_of (between 48 48) (between 49 57) s
                   @ one_of (between 49 57) s"

definition match_d_u :: "(nat \<Rightarrow> nat option) \<Rightarrow> codepoints \<Rightarrow> (codepoints \<times> codepoints) list" where
  "match_d_u tbl s =
     two_of (between 51 51) (between 48 49) s @ two_of (between 49 50) (is_decimal tbl) s
       @ two_of (between 48 48) (between 49 57) s @ one_of (between 49 57) s
       @ two_of (between 32 32) (between 49 57) s"

definition match_hyphen_u :: "codepoints \<Rightarrow> codepoints list" where
  "match_hyphen_u s = (case s of c # rest \<Rightarrow> if c = 45 then [rest] else [] | [] \<Rightarrow> [])"

definition regex_matches_u ::
  "(nat \<Rightarrow> nat option) \<Rightarrow> codepoints \<Rightarrow> (codepoints \<times> codepoints \<times> codepoints \<times> codepoints) list" where
  "regex_matches_u tbl s =
     [(Y, m, d, r4). (Y, r0) \<leftarrow> match_Y_u tbl s, r1 \<leftarrow> match_hyphen_u r0, (m, r2) \<leftarrow> match_m_u r1,
                     r3 \<leftarrow> match_hyphen_u r2, (d, r4) \<leftarrow> match_d_u tbl r3]"

text \<open>
  \<^verbatim>\<open>int(text)\<close> on a matched group: decimal digits of any script, after an optional blank.
  A matched group holds no other character.
\<close>

definition decimal_value :: "(nat \<Rightarrow> nat option) \<Rightarrow> nat \<Rightarrow> nat" where
  "decimal_value tbl c = (case tbl c of Some d \<Rightarrow> d | None \<Rightarrow> 0)"

definition py_int_u :: "(nat \<Rightarrow> nat option) \<Rightarrow> codepoints \<Rightarrow> nat" where
  "py_int_u tbl s = foldl (\<lambda>n c. 10 * n + decimal_value tbl c) 0 (dropWhile (\<lambda>c. c = 32) s)"

definition strptime_u :: "(nat \<Rightarrow> nat option) \<Rightarrow> codepoints \<Rightarrow> datetime option" where
  "strptime_u tbl s =
     (case regex_matches_u tbl s of
        [] \<Rightarrow> None
      | (Y, m, d, rest) # _ \<Rightarrow>
          if rest \<noteq> [] then None
          else if valid_date (py_int_u tbl Y) (py_int_u tbl m) (py_int_u tbl d)
          then Some (py_int_u tbl Y, py_int_u tbl m, py_int_u tbl d) else None)"

text \<open>
  The constructor on a deadline given by its code points. The company and the position are
  stored as they are and take no part in the parsing.
\<close>

definition JobApplication_init_u ::
  "(nat \<Rightarrow> nat option) \<Rightarrow> string \<Rightarrow> string \<Rightarrow> codepoints \<Rightarrow> int \<Rightarrow> error + JobApplication" where
  "JobApplication_init_u tbl c p dl imp =
     (case strptime_u tbl dl of
        None \<Rightarrow> Inl InvalidDeadlineFormat
      | Some d \<Rightarrow>
          if imp \<le> 0 then Inl InvalidImportance
          else Inr \<lparr>company = c, position = p, deadline = d, importance = imp,
                    status = ''Pending''\<rparr>)"

text \<open>
  \<open>accepted_deadline_u tbl\<close> describes the strings that the call takes: a year of four decimal
  digits that is not the number 0, a hyphen, a month written \<^verbatim>\<open>1\<close> to \<^verbatim>\<open>9\<close>, \<^verbatim>\<open>01\<close> to \<^verbatim>\<open>09\<close>
  or \<^verbatim>\<open>10\<close> to \<^verbatim>\<open>12\<close> in ASCII, a hyphen, and a day written \<^verbatim>\<open>1\<close> to \<^verbatim>\<open>9\<close>, \<^verbatim>\<open>01\<close> to
  \<^verbatim>\<open>09\<close>, \<^verbatim>\<open>30\<close> or \<^verbatim>\<open>31\<close> in ASCII, as \<^verbatim>\<open>1\<close> or \<^verbatim>\<open>2\<close> and one decimal digit of any script, or
  as a blank and one of \<^verbatim>\<open>1\<close> to \<^verbatim>\<open>9\<close>, the day being a day of that month in that year.
\<close>

fun month_text_u :: "codepoints \<Rightarrow> bool" where
  "month_text_u [a] = between 49 57 a"
| "month_text_u [a, b] = (a = 48 \<and> between 49 57 b \<or> a = 49 \<and> between 48 50 b)"
| "month_text_u _ = False"

fun day_text_u :: "(nat \<Rightarrow> nat option) \<Rightarrow> codepoints \<Rightarrow> bool" where
  "day_text_u tbl [a] = between 49 57 a"
| "day_text_u tbl [a, b] =
     ((a = 48 \<or> a = 32) \<and> between 49 57 b \<or> between 49 50 a \<and> is_decimal tbl b
      \<or> a = 51 \<and> between 48 49 b)"
| "day_text_u tbl _ = False"

definition accepted_deadline_u :: "(nat \<Rightarrow> nat option) \<Rightarrow> codepoints \<Rightarrow> bool" where
  "accepted_deadline_u tbl s =
     (\<exists>Y m d. s = Y @ [45] @ m @ [45] @ d \<and> length Y = 4 \<and> (\<forall>c \<in> set Y. is_decimal tbl c)
        \<and> month_text_u m \<and> day_text_u tbl d
        \<and> py_int_u tbl Y \<noteq> 0 \<and> py_int_u tbl d \<le> days_in_month (py_int_u tbl Y) (py_int_u tbl m))"

text \<open>
  A table with the digits of three scripts: ASCII, Arabic-Indic (code points 1632 to 1641)
  and fullwidth (65296 to 65305). \<open>latin1\<close> gives the code points of a string of 8-bit
  characters.
\<close>

definition sample_table :: "nat \<Rightarrow> nat option" where
  "sample_table c =
     (if 48 \<le> c \<and> c \<le> 57 then Some (c - 48)
      else if 1632 \<le> c \<and> c \<le> 1641 then Some (c - 1632)
      else if 65296 \<le> c \<and> c \<le> 65305 then Some (c - 65296)
      else None)"

definition latin1 :: "string \<Rightarrow> codepoints" where
  "latin1 s = map of_char s"

text \<open>
  \<open>latin1_table tbl\<close>: among the code points below 256 the decimal digits are \<^verbatim>\<open>0\<close> to
  \<^verbatim>\<open>9\<close> only, as in every version of Unicode. For such a table the definitions of this
  subsection and the ones over 8-bit characters give the same result on a string of 8-bit
  characters.
\<close>

definition latin1_table :: "(nat \<Rightarrow> nat option) \<Rightarrow> bool" where
  "latin1_table tbl = (\<forall>c < 256. is_decimal tbl c \<longrightarrow> between 48 57 c)"

subsection \<open>Sequences that add one pair twice\<close>

definition adds_stale_importance :: "call list" where
  "adds_stale_importance =
     [Add ''Acme'' ''Eng'' ''2025-06-01'' 9, Add ''Acme'' ''Eng'' ''2025-07-01'' 5,
      Add ''Globex'' ''PM'' ''2025-06-01'' 3]"

definition adds_stale_deadline :: "call list" where
  "adds_stale_deadline =
     [Add ''Acme'' ''Eng'' ''2025-06-01'' 9, Add ''Acme'' ''Eng'' ''2025-05-01'' 5,
      Add ''Globex'' ''PM'' ''2025-06-01'' 5]"

definition adds_duplicate :: "call list" where
  "adds_duplicate = [Add ''Acme'' ''Eng'' ''2025-06-01'' 5, Add ''Acme'' ''Eng'' ''2025-06-01'' 5]"

subsection \<open>The index and the heap\<close>

text \<open>
  \<open>key_of\<close> is the pair under which a record is stored in the index. \<open>added_keys\<close> lists
  the pairs of the calls of a sequence that add a record (a call whose record cannot be
  built adds nothing). \<open>index_mirrors_heap\<close> says that the keys of the index are the
  pairs of the objects in the heap and that the index maps the pair of each object in the
  heap to that object. \<open>tracker_inv\<close> is the invariant behind it: no object is twice in
  the heap, every object of the heap was allocated, and the index holds an object under a
  key exactly when that object is in the heap and has that pair.
\<close>


definition key_of :: "JobApplication \<Rightarrow> string \<times> string" where
  "key_of job = (company job, position job)"

fun added_keys :: "call list \<Rightarrow> (string \<times> string) list" where
  "added_keys [] = []"
| "added_keys (Add c p dl imp # cs) =
     (case JobApplication_init c p dl imp of
        Inl e \<Rightarrow> added_keys cs
      | Inr job \<Rightarrow> (c, p) # added_keys cs)"
| "added_keys (ProcessNext # cs) = added_keys cs"

definition index_mirrors_heap :: "JobTracker \<Rightarrow> bool" where
  "index_mirrors_heap t =
     (dom (jobs t) = (\<lambda>r. key_of (objs t r)) ` set (job_heap t)
      \<and> (\<forall>r \<in> set (job_heap t). jobs t (key_of (objs t r)) = Some r))"

definition tracker_inv :: "JobTracker \<Rightarrow> bool" where
  "tracker_inv t =
     (distinct (job_heap t) \<and> (\<forall>r \<in> set (job_heap t). r < next_ref t)
      \<and> (\<forall>k r. jobs t k = Some r \<longleftrightarrow> r \<in> set (job_heap t) \<and> key_of (objs t r) = k))"

definition calls_distinct :: "call list" where
  "calls_distinct =
     [Add ''Acme'' ''Eng'' ''2025-06-01'' 5, Add ''Globex'' ''PM'' ''2025-05-01'' 5,
      Add ''Initech'' ''Ops'' ''2025-06-01'' 8, ProcessNext]"

subsection \<open>The heap property\<close>

text \<open>
  A list is a heap for the key \<open>f\<close> when no item has a smaller key than its parent, the
  parent of position \<open>i\<close> being \<open>(i - 1) div 2\<close>. While an item is being sifted there is
  a hole: \<open>heap_except\<close> is the heap property between the positions other than the
  hole, \<open>hole_children_ok\<close> relates the children of the hole to its parent, and
  \<open>above_children\<close> says that an item may be put above the children of the hole.
\<close>


definition is_heap :: "('a \<Rightarrow> 'k::linorder) \<Rightarrow> 'a list \<Rightarrow> bool" where
  "is_heap f h = (\<forall>i. 0 < i \<and> i < length h \<longrightarrow> f (h ! ((i - 1) div 2)) \<le> f (h ! i))"

definition heap_except :: "('a \<Rightarrow> 'k::linorder) \<Rightarrow> 'a list \<Rightarrow> nat \<Rightarrow> bool" where
  "heap_except f h pos =
     (\<forall>i. 0 < i \<and> i < length h \<and> i \<noteq> pos \<and> (i - 1) div 2 \<noteq> pos \<longrightarrow> f (h ! ((i - 1) div 2)) \<le> f (h ! i))"

definition hole_children_ok :: "('a \<Rightarrow> 'k::linorder) \<Rightarrow> 'a list \<Rightarrow> nat \<Rightarrow> bool" where
  "hole_children_ok f h pos =
     (0 < pos \<longrightarrow> (\<forall>i. 0 < i \<and> i < length h \<and> (i - 1) div 2 = pos \<longrightarrow> f (h ! ((pos - 1) div 2)) \<le> f (h ! i)))"

definition above_children :: "('a \<Rightarrow> 'k::linorder) \<Rightarrow> 'a list \<Rightarrow> nat \<Rightarrow> 'a \<Rightarrow> bool" where
  "above_children f h pos x = (\<forall>i. 0 < i \<and> i < length h \<and> (i - 1) div 2 = pos \<longrightarrow> f x \<le> f (h ! i))"

subsection \<open>The order of processing\<close>

text \<open>
  \<open>prio\<close> is the key that \<^verbatim>\<open>__lt__\<close> orders by: importance descending, then deadline
  ascending. \<open>heap_inv\<close> says that the heap list of a tracker is a heap for the keys of
  the objects it refers to, all of them allocated.
\<close>


definition prio :: "JobApplication \<Rightarrow> int \<times> datetime" where
  "prio job = (- importance job, deadline job)"

definition heap_inv :: "JobTracker \<Rightarrow> bool" where
  "heap_inv t =
     ((\<forall>r \<in> set (job_heap t). r < next_ref t) \<and> is_heap (\<lambda>r. prio (objs t r)) (job_heap t))"

(*DEFS*)

section \<open>Properties\<close>

subsection \<open>Evaluating the operations\<close>

lemma strptime_2025_06_01: "strptime ''2025-06-01'' = Some (2025, 6, 1)"
  by code_simp

lemma strptime_not_a_date: "strptime ''June 1st'' = None"
  by code_simp

lemma Hired_invalid: "''Hired'' \<notin> VALID_STATUSES"
  by (simp add: VALID_STATUSES_def)

lemma add_application_ok:
  "strptime dl = Some d \<Longrightarrow> 0 < imp \<Longrightarrow>
   add_application t c p dl imp =
     (Added,
      t\<lparr>objs := (objs t)(next_ref t := \<lparr>company = c, position = p, deadline = d,
                                          importance = imp, status = ''Pending''\<rparr>),
        next_ref := next_ref t + 1,
        job_heap := heappush (less_ref ((objs t)(next_ref t := \<lparr>company = c, position = p,
                      deadline = d, importance = imp, status = ''Pending''\<rparr>))) (job_heap t) (next_ref t),
        jobs := (jobs t)((c, p) \<mapsto> next_ref t)\<rparr>)"
  by (simp add: add_application_def JobApplication_init_def Let_def)

lemma jobs_tracker_one: "jobs tracker_one (''Acme'', ''Eng'') = Some 0"
  by (simp add: tracker_one_def add_application_ok [OF strptime_2025_06_01] JobTracker_init_def)

lemma process_next_empty: "job_heap t = [] \<Longrightarrow> process_next_application t = (Inr None, t)"
  by (simp add: process_next_application_def)

subsection \<open>The comparison of records\<close>

text \<open>
  C9. \<^verbatim>\<open>__lt__\<close> is a strict weak ordering: no record is below itself, two records are
  never below each other, the relation is transitive, and so is being incomparable.
\<close>

theorem lt_strict_weak_ordering:
  "\<not> lt a a \<and> (lt a b \<longrightarrow> \<not> lt b a) \<and> (lt a b \<and> lt b c \<longrightarrow> lt a c)
   \<and> (\<not> lt a b \<and> \<not> lt b a \<and> \<not> lt b c \<and> \<not> lt c b \<longrightarrow> \<not> lt a c \<and> \<not> lt c a)"
  by (auto simp: lt_def split: if_splits)

theorem lt_strict_weak_ordering_witness:
  "lt sample_a sample_b \<and> lt sample_b sample_c \<and> lt sample_a sample_c \<and> \<not> lt sample_b sample_a"
  using lt_strict_weak_ordering [of sample_a sample_b sample_c]
  by (simp add: lt_def sample_a_def sample_b_def sample_c_def)

subsection \<open>Calls that change nothing\<close>

text \<open>
  C4. When the deadline does not parse or the importance is not positive,
  \<^verbatim>\<open>add_application\<close> prints the error and returns the tracker as it was: the heap, the
  index and the store are the same.
\<close>

theorem add_application_invalid_no_change:
  "strptime dl = None \<or> imp \<le> 0 \<Longrightarrow>
   add_application t c p dl imp =
     (Error (if strptime dl = None then InvalidDeadlineFormat else InvalidImportance), t)"
  by (auto simp: add_application_def JobApplication_init_def split: option.splits)

theorem add_application_invalid_no_change_witness:
  "add_application JobTracker_init ''Acme'' ''Eng'' ''June 1st'' 5
     = (Error InvalidDeadlineFormat, JobTracker_init)
   \<and> add_application JobTracker_init ''Acme'' ''Eng'' ''2025-06-01'' 0
     = (Error InvalidImportance, JobTracker_init)"
  using add_application_invalid_no_change [of "''June 1st''" 5 JobTracker_init "''Acme''" "''Eng''"]
        add_application_invalid_no_change [of "''2025-06-01''" 0 JobTracker_init "''Acme''" "''Eng''"]
  by (simp add: strptime_not_a_date strptime_2025_06_01)

text \<open>
  C8. On a tracker with an empty heap \<^verbatim>\<open>process_next_application\<close> returns \<^verbatim>\<open>None\<close>
  and \<^verbatim>\<open>view_pending_applications\<close> prints the line for no pending applications; neither
  raises, the tracker is unchanged, and after any number \<open>n\<close> of such calls the next call
  gives the same again.
\<close>

theorem empty_tracker_signal:
  "job_heap t = [] \<Longrightarrow>
   process_next_application t = (Inr None, t) \<and> view_pending_applications t = None
   \<and> ((\<lambda>s. snd (process_next_application s)) ^^ n) t = t
   \<and> process_next_application (((\<lambda>s. snd (process_next_application s)) ^^ n) t) = (Inr None, t)"
proof -
  assume e: "job_heap t = []"
  have it: "((\<lambda>s. snd (process_next_application s)) ^^ n) t = t"
    by (induction n) (simp_all add: process_next_empty [OF e])
  show ?thesis
    by (simp add: it process_next_empty [OF e] view_pending_applications_def e)
qed

theorem empty_tracker_signal_witness:
  "process_next_application JobTracker_init = (Inr None, JobTracker_init)
   \<and> view_pending_applications JobTracker_init = None
   \<and> process_next_application (((\<lambda>s. snd (process_next_application s)) ^^ 3) JobTracker_init)
       = (Inr None, JobTracker_init)"
  using empty_tracker_signal [of JobTracker_init 3]
  by (simp add: JobTracker_init_def)

text \<open>
  C10. \<^verbatim>\<open>update_status\<close> looks the key up before it looks at the status: for a key that
  is not in the index it reports that the application was not found, whatever the status
  is; for a key in the index and a status outside the valid set it reports the invalid
  status; and a call that does not report an update returns the tracker unchanged.
\<close>

theorem update_status_failure_no_change:
  "(jobs t (c, p) = None \<longrightarrow> update_status t c p s = (NotFound, t))
   \<and> (jobs t (c, p) \<noteq> None \<and> s \<notin> VALID_STATUSES \<longrightarrow> update_status t c p s = (InvalidStatus, t))
   \<and> (fst (update_status t c p s) \<noteq> Updated \<longrightarrow> snd (update_status t c p s) = t)"
  by (auto simp: update_status_def split: option.splits)

theorem update_status_failure_no_change_witness:
  "update_status JobTracker_init ''Acme'' ''Eng'' ''Hired'' = (NotFound, JobTracker_init)
   \<and> update_status tracker_one ''Acme'' ''Eng'' ''Hired'' = (InvalidStatus, tracker_one)"
  using update_status_failure_no_change [of JobTracker_init "''Acme''" "''Eng''" "''Hired''"]
        update_status_failure_no_change [of tracker_one "''Acme''" "''Eng''" "''Hired''"]
  by (simp add: jobs_tracker_one Hired_invalid JobTracker_init_def)

subsection \<open>Which deadline strings the constructor takes\<close>

lemma set_match_Y: "set (match_Y s) = {(Y, r). s = Y @ r \<and> length Y = 4 \<and> set Y \<subseteq> set digits}"
proof -
  have "(Y, r) \<in> set (match_Y s) \<longleftrightarrow> (s = Y @ r \<and> length Y = 4 \<and> set Y \<subseteq> set digits)" for Y r
  proof (cases s rule: match_Y.cases)
    case (1 a b c d rest)
    show ?thesis
    proof
      assume "(Y, r) \<in> set (match_Y s)"
      then show "s = Y @ r \<and> length Y = 4 \<and> set Y \<subseteq> set digits"
        using 1 by (auto split: if_splits)
    next
      assume h: "s = Y @ r \<and> length Y = 4 \<and> set Y \<subseteq> set digits"
      then obtain a' b' c' d' where Y: "Y = [a', b', c', d']"
        by (auto simp: length_Suc_conv numeral_eq_Suc)
      with h 1 show "(Y, r) \<in> set (match_Y s)" by auto
    qed
  qed (auto simp: length_Suc_conv numeral_eq_Suc)
  then show ?thesis by auto
qed

lemma set_match_hyphen: "set (match_hyphen s) = {r. s = CHR ''-'' # r}"
  by (auto simp: match_hyphen_def split: list.splits)

lemma set_one_char: "set (one_char A s) = {(m, r). \<exists>a. m = [a] \<and> a \<in> set A \<and> s = m @ r}"
  by (auto simp: one_char_def split: list.splits)

lemma set_two_chars: "set (two_chars A B s) = {(m, r). \<exists>a b. m = [a, b] \<and> a \<in> set A \<and> b \<in> set B \<and> s = m @ r}"
  by (auto simp: two_chars_def split: list.splits)

lemma in_match_m: "(m, r) \<in> set (match_m s) \<Longrightarrow> s = m @ r \<and> month_text m"
  unfolding match_m_def set_append set_one_char set_two_chars
  by auto

lemma in_match_d: "(d, r) \<in> set (match_d s) \<Longrightarrow> s = d @ r \<and> day_text d"
  unfolding match_d_def set_append set_one_char set_two_chars
  by auto

lemma in_regex_matches:
  "(Y, m, d, r) \<in> set (regex_matches s) \<Longrightarrow>
   s = Y @ ''-'' @ m @ ''-'' @ d @ r \<and> length Y = 4 \<and> set Y \<subseteq> set digits \<and> month_text m \<and> day_text d"
  unfolding regex_matches_def
  by (auto simp: set_match_Y set_match_hyphen dest!: in_match_m in_match_d)


lemma digit_facts:
  "c \<in> set digits \<Longrightarrow> c \<noteq> CHR ''-'' \<and> c \<noteq> CHR '' '' \<and> digit_value c \<le> 9"
  by (auto simp: digits_def digit_value_def)

lemma nonzero_digit_facts:
  "c \<in> set nonzero_digits \<Longrightarrow> c \<in> set digits \<and> c \<noteq> CHR ''0'' \<and> 1 \<le> digit_value c"
  by (auto simp: nonzero_digits_def digits_def digit_value_def)

lemma match_Y_digits:
  "set [a, b, c, d] \<subseteq> set digits \<Longrightarrow> match_Y (a # b # c # d # r) = [([a, b, c, d], r)]"
  by simp

lemma month_stage:
  assumes "month_text m"
  shows "concat (map (\<lambda>(m', r2). concat (map (f m') (match_hyphen r2))) (match_m (m @ CHR ''-'' # r)))
         = f m r"
proof (cases m rule: month_text.cases)
  case (1 a)
  with assms have a: "a \<in> set nonzero_digits" by simp
  show ?thesis
    using a nonzero_digit_facts [OF a]
    by (simp add: 1 match_m_def two_chars_def one_char_def match_hyphen_def)
next
  case (2 a b)
  with assms consider "a = CHR ''0''" "b \<in> set nonzero_digits" | "a = CHR ''1''" "b \<in> set ''012''"
    by auto
  then show ?thesis
  proof cases
    case 1
    then show ?thesis
      using nonzero_digit_facts [of b] digit_facts [of b]
      by (simp add: 2 match_m_def two_chars_def one_char_def match_hyphen_def nonzero_digits_def)
  next
    case 2
    then have "b \<noteq> CHR ''-''" by auto
    with 2 show ?thesis
      by (simp add: \<open>m = [a, b]\<close> match_m_def two_chars_def one_char_def match_hyphen_def nonzero_digits_def)
  qed
qed (use assms in simp_all)

lemma day_stage:
  assumes "day_text d"
  shows "\<exists>rest. match_d d = (d, []) # rest"
proof (cases d rule: day_text.cases)
  case (1 a)
  with assms show ?thesis
    by (simp add: match_d_def two_chars_def one_char_def)
next
  case (2 a b)
  with assms consider "a = CHR ''0''" "b \<in> set nonzero_digits" | "a = CHR '' ''" "b \<in> set nonzero_digits"
    | "a = CHR ''1''" "b \<in> set digits" | "a = CHR ''2''" "b \<in> set digits" | "a = CHR ''3''" "b \<in> set ''01''"
    by auto
  then show ?thesis
  proof cases
    case 1
    then show ?thesis by (simp add: 2 match_d_def two_chars_def one_char_def)
  next
    case 2
    then show ?thesis by (simp add: \<open>d = [a, b]\<close> match_d_def two_chars_def one_char_def nonzero_digits_def)
  next
    case 3
    then show ?thesis by (simp add: 2 match_d_def two_chars_def one_char_def)
  next
    case 4
    then show ?thesis by (simp add: 2 match_d_def two_chars_def one_char_def)
  next
    case 5
    then show ?thesis by (simp add: 2 match_d_def two_chars_def one_char_def)
  qed
qed (use assms in simp_all)

lemma regex_matches_full:
  assumes "length Y = 4" "set Y \<subseteq> set digits" "month_text m" "day_text d"
  shows "\<exists>rest. regex_matches (Y @ ''-'' @ m @ ''-'' @ d) = (Y, m, d, []) # rest"
proof -
  from assms(1) obtain a b c e where Y: "Y = [a, b, c, e]"
    by (auto simp: length_Suc_conv numeral_eq_Suc)
  from day_stage [OF assms(4)] obtain rest where d: "match_d d = (d, []) # rest" ..
  have "regex_matches (Y @ ''-'' @ m @ ''-'' @ d)
        = concat (map (\<lambda>(m', r2). concat (map (\<lambda>r3. map (\<lambda>(d', r4). (Y, m', d', r4)) (match_d r3))
             (match_hyphen r2))) (match_m (m @ CHR ''-'' # d)))"
    using assms(2) unfolding regex_matches_def Y
    by (simp add: match_hyphen_def split_def comp_def)
  also have "\<dots> = map (\<lambda>(d', r4). (Y, m, d', r4)) (match_d d)"
    by (rule month_stage [OF assms(3)])
  finally show ?thesis by (simp add: d)
qed


lemma py_int_year:
  assumes "length Y = 4" "set Y \<subseteq> set digits"
  shows "py_int Y \<le> 9999"
proof -
  from assms(1) obtain a b c e where Y: "Y = [a, b, c, e]"
    by (auto simp: length_Suc_conv numeral_eq_Suc)
  from assms(2) Y have "a \<in> set digits" "b \<in> set digits" "c \<in> set digits" "e \<in> set digits"
    by auto
  from this [THEN digit_facts] show ?thesis
    by (simp add: Y py_int_def)
qed

lemma py_int_month: "month_text m \<Longrightarrow> 1 \<le> py_int m \<and> py_int m \<le> 12"
proof (cases m rule: month_text.cases)
  case (1 a)
  assume "month_text m"
  with 1 have a: "a \<in> set nonzero_digits" by simp
  from nonzero_digit_facts [OF a] digit_facts [of a] show ?thesis
    by (simp add: 1 py_int_def)
next
  case (2 a b)
  assume "month_text m"
  with 2 consider "a = CHR ''0''" "b \<in> set nonzero_digits" | "a = CHR ''1''" "b \<in> set ''012''"
    by auto
  then show ?thesis
  proof cases
    case 1
    with nonzero_digit_facts [of b] digit_facts [of b] show ?thesis
      by (simp add: 2 py_int_def digit_value_def)
  next
    case 2
    then show ?thesis
      by (auto simp: \<open>m = [a, b]\<close> py_int_def digit_value_def)
  qed
qed simp_all

lemma py_int_day: "day_text d \<Longrightarrow> 1 \<le> py_int d"
proof (cases d rule: day_text.cases)
  case (1 a)
  assume "day_text d"
  with 1 have a: "a \<in> set nonzero_digits" by simp
  from nonzero_digit_facts [OF a] digit_facts [of a] show ?thesis
    by (simp add: 1 py_int_def)
next
  case (2 a b)
  assume "day_text d"
  with 2 consider "a = CHR ''0''" "b \<in> set nonzero_digits" | "a = CHR '' ''" "b \<in> set nonzero_digits"
    | "a = CHR ''1''" | "a = CHR ''2''" | "a = CHR ''3''"
    by auto
  then show ?thesis
  proof cases
    case 1
    with nonzero_digit_facts [of b] digit_facts [of b] show ?thesis
      by (simp add: 2 py_int_def digit_value_def)
  next
    case 2
    with nonzero_digit_facts [of b] digit_facts [of b] show ?thesis
      by (simp add: \<open>d = [a, b]\<close> py_int_def)
  qed (simp_all add: 2 py_int_def digit_value_def)
qed simp_all

lemma strptime_accepts_iff: "strptime s \<noteq> None \<longleftrightarrow> accepted_deadline s"
proof
  assume "strptime s \<noteq> None"
  then obtain Y m d rest where
    hd: "regex_matches s = (Y, m, d, []) # rest" and v: "valid_date (py_int Y) (py_int m) (py_int d)"
    by (auto simp: strptime_def split: list.splits if_splits)
  from hd have "(Y, m, d, []) \<in> set (regex_matches s)" by simp
  from in_regex_matches [OF this] v show "accepted_deadline s"
    unfolding accepted_deadline_def valid_date_def
    by (intro exI [of _ Y] exI [of _ m] exI [of _ d]) simp
next
  assume "accepted_deadline s"
  then obtain Y m d where s: "s = Y @ ''-'' @ m @ ''-'' @ d" and Y: "length Y = 4" "set Y \<subseteq> set digits"
    and m: "month_text m" and d: "day_text d"
    and n: "py_int Y \<noteq> 0" "py_int d \<le> days_in_month (py_int Y) (py_int m)"
    unfolding accepted_deadline_def by blast
  from regex_matches_full [OF Y m d] obtain rest where
    "regex_matches s = (Y, m, d, []) # rest" unfolding s ..
  moreover have "valid_date (py_int Y) (py_int m) (py_int d)"
    using n py_int_year [OF Y] py_int_month [OF m] py_int_day [OF d]
    by (simp add: valid_date_def)
  ultimately show "strptime s \<noteq> None"
    by (simp add: strptime_def)
qed

text \<open>
  For a deadline of 8-bit characters, the constructor fails with the deadline error exactly
  when the string is not one that \<^verbatim>\<open>strptime\<close> takes for \<^verbatim>\<open>%Y-%m-%d\<close>: see
  \<open>accepted_deadline\<close>. A month or a day of one digit is taken, and a string of the strict
  form that names no day of the calendar is refused.
\<close>

lemma init_fails_on_deadline_iff:
  "JobApplication_init c p s imp = Inl InvalidDeadlineFormat \<longleftrightarrow> \<not> accepted_deadline s"
  unfolding strptime_accepts_iff [symmetric]
  by (auto simp: JobApplication_init_def split: option.splits)

lemma strptime_2025_6_1: "strptime ''2025-6-1'' = Some (2025, 6, 1)"
  by code_simp

lemma strptime_2025_02_30: "strptime ''2025-02-30'' = None"
  by code_simp

text \<open>
  C5 as stated fails in both directions: \<^verbatim>\<open>2025-6-1\<close> is not of the strict form and the
  record is built; \<^verbatim>\<open>2025-02-30\<close> is of the strict form and the constructor fails.
\<close>

theorem strict_form_counterexample:
  "\<not> strict_form ''2025-6-1''
   \<and> JobApplication_init ''Acme'' ''Eng'' ''2025-6-1'' 5
       = Inr \<lparr>company = ''Acme'', position = ''Eng'', deadline = (2025, 6, 1), importance = 5,
               status = ''Pending''\<rparr>
   \<and> strict_form ''2025-02-30''
   \<and> JobApplication_init ''Acme'' ''Eng'' ''2025-02-30'' 5 = Inl InvalidDeadlineFormat"
  by (simp add: JobApplication_init_def strptime_2025_6_1 strptime_2025_02_30 digits_def)

lemma init_fails_on_deadline_iff_latin1:
  "accepted_deadline ''2025-6-1'' \<and> \<not> accepted_deadline ''2025-02-30''"
  using init_fails_on_deadline_iff [of "''Acme''" "''Eng''" "''2025-6-1''" 5]
        init_fails_on_deadline_iff [of "''Acme''" "''Eng''" "''2025-02-30''" 5]
  by (simp add: JobApplication_init_def strptime_2025_6_1 strptime_2025_02_30)

subsection \<open>Which deadline strings the constructor takes, over all of Unicode\<close>

lemma unicode_table_sample: "unicode_table sample_table"
  by (auto simp: unicode_table_def sample_table_def split: if_splits)

lemma set_match_Y_u:
  "set (match_Y_u tbl s) = {(Y, r). s = Y @ r \<and> length Y = 4 \<and> (\<forall>c \<in> set Y. is_decimal tbl c)}"
proof -
  have "(Y, r) \<in> set (match_Y_u tbl s) \<longleftrightarrow> (s = Y @ r \<and> length Y = 4 \<and> (\<forall>c \<in> set Y. is_decimal tbl c))" for Y r
  proof (cases "(tbl, s)" rule: match_Y_u.cases)
    case (1 tbl' a b c d rest)
    show ?thesis
    proof
      assume "(Y, r) \<in> set (match_Y_u tbl s)"
      then show "s = Y @ r \<and> length Y = 4 \<and> (\<forall>c \<in> set Y. is_decimal tbl c)"
        using 1 by (auto split: if_splits)
    next
      assume h: "s = Y @ r \<and> length Y = 4 \<and> (\<forall>c \<in> set Y. is_decimal tbl c)"
      then obtain a' b' c' d' where Y: "Y = [a', b', c', d']"
        by (auto simp: length_Suc_conv numeral_eq_Suc)
      with h 1 show "(Y, r) \<in> set (match_Y_u tbl s)" by auto
    qed
  qed (auto simp: length_Suc_conv numeral_eq_Suc)
  then show ?thesis by auto
qed

lemma set_match_hyphen_u: "set (match_hyphen_u s) = {r. s = 45 # r}"
  by (auto simp: match_hyphen_u_def split: list.splits)

lemma set_one_of: "set (one_of P s) = {(m, r). \<exists>a. m = [a] \<and> P a \<and> s = m @ r}"
  by (auto simp: one_of_def split: list.splits)

lemma set_two_of: "set (two_of P Q s) = {(m, r). \<exists>a b. m = [a, b] \<and> P a \<and> Q b \<and> s = m @ r}"
  by (auto simp: two_of_def split: list.splits)

lemma in_match_m_u: "(m, r) \<in> set (match_m_u s) \<Longrightarrow> s = m @ r \<and> month_text_u m"
  unfolding match_m_u_def set_append set_one_of set_two_of
  by (auto simp: between_def)

lemma in_match_d_u: "(d, r) \<in> set (match_d_u tbl s) \<Longrightarrow> s = d @ r \<and> day_text_u tbl d"
  unfolding match_d_u_def set_append set_one_of set_two_of
  by (auto simp: between_def)

lemma in_regex_matches_u:
  "(Y, m, d, r) \<in> set (regex_matches_u tbl s) \<Longrightarrow>
   s = Y @ [45] @ m @ [45] @ d @ r \<and> length Y = 4 \<and> (\<forall>c \<in> set Y. is_decimal tbl c)
     \<and> month_text_u m \<and> day_text_u tbl d"
  unfolding regex_matches_u_def
  by (auto simp: set_match_Y_u set_match_hyphen_u dest!: in_match_m_u in_match_d_u)


lemma table_ascii:
  assumes "unicode_table tbl" and "between 48 57 c"
  shows "tbl c = Some (c - 48)" and "is_decimal tbl c" and "decimal_value tbl c = c - 48"
  using assms by (simp_all add: unicode_table_def between_def is_decimal_def decimal_value_def)

lemma table_not_digit:
  assumes "unicode_table tbl"
  shows "\<not> is_decimal tbl 45" and "\<not> is_decimal tbl 32"
  using assms by (simp_all add: unicode_table_def is_decimal_def)

lemma table_value_le: "unicode_table tbl \<Longrightarrow> decimal_value tbl c \<le> 9"
  by (auto simp: unicode_table_def decimal_value_def split: option.splits)

lemma month_stage_u:
  assumes "month_text_u m"
  shows "concat (map (\<lambda>(m', r2). concat (map (g m') (match_hyphen_u r2))) (match_m_u (m @ 45 # r)))
         = g m r"
proof (cases m rule: month_text_u.cases)
  case (1 a)
  with assms show ?thesis
    by (simp add: match_m_u_def two_of_def one_of_def match_hyphen_u_def between_def)
next
  case (2 a b)
  with assms consider "a = 48" "between 49 57 b" | "a = 49" "between 48 50 b"
    by auto
  then show ?thesis
  proof cases
    case 1
    then show ?thesis
      by (simp add: 2 match_m_u_def two_of_def one_of_def match_hyphen_u_def between_def)
  next
    case 2
    then show ?thesis
      by (auto simp: \<open>m = [a, b]\<close> match_m_u_def two_of_def one_of_def match_hyphen_u_def between_def)
  qed
qed (use assms in simp_all)

lemma day_stage_u:
  assumes t: "unicode_table tbl" and d: "day_text_u tbl d"
  shows "\<exists>rest. match_d_u tbl d = (d, []) # rest"
proof (cases "(tbl, d)" rule: day_text_u.cases)
  case (1 tbl' a)
  with d show ?thesis
    by (simp add: match_d_u_def two_of_def one_of_def)
next
  case (2 tbl' a b)
  then have dd: "d = [a, b]" by simp
  with d consider "a = 48" "between 49 57 b" | "a = 32" "between 49 57 b"
    | "between 49 50 a" "is_decimal tbl b" | "a = 51" "between 48 49 b"
    by auto
  then show ?thesis
  proof cases
    case 1
    then show ?thesis by (simp add: dd match_d_u_def two_of_def one_of_def between_def)
  next
    case 2
    then show ?thesis by (simp add: dd match_d_u_def two_of_def one_of_def between_def)
  next
    case 3
    then show ?thesis by (simp add: dd match_d_u_def two_of_def one_of_def between_def)
  next
    case 4
    then show ?thesis by (simp add: dd match_d_u_def two_of_def one_of_def between_def)
  qed
qed (use d in simp_all)

lemma regex_matches_u_full:
  assumes t: "unicode_table tbl" and "length Y = 4" "\<forall>c \<in> set Y. is_decimal tbl c"
    "month_text_u m" "day_text_u tbl d"
  shows "\<exists>rest. regex_matches_u tbl (Y @ [45] @ m @ [45] @ d) = (Y, m, d, []) # rest"
proof -
  from assms(2) obtain a b c e where Y: "Y = [a, b, c, e]"
    by (auto simp: length_Suc_conv numeral_eq_Suc)
  from day_stage_u [OF t assms(5)] obtain rest where d: "match_d_u tbl d = (d, []) # rest" ..
  have "regex_matches_u tbl (Y @ [45] @ m @ [45] @ d)
        = concat (map (\<lambda>(m', r2). concat (map (\<lambda>r3. map (\<lambda>(d', r4). (Y, m', d', r4)) (match_d_u tbl r3))
             (match_hyphen_u r2))) (match_m_u (m @ 45 # d)))"
    using assms(3) unfolding regex_matches_u_def Y
    by (simp add: match_hyphen_u_def split_def comp_def)
  also have "\<dots> = map (\<lambda>(d', r4). (Y, m, d', r4)) (match_d_u tbl d)"
    by (rule month_stage_u [OF assms(4)])
  finally show ?thesis by (simp add: d)
qed

lemma py_int_u_year:
  assumes t: "unicode_table tbl" and "length Y = 4" "\<forall>c \<in> set Y. is_decimal tbl c"
  shows "py_int_u tbl Y \<le> 9999"
proof -
  from assms(2) obtain a b c e where Y: "Y = [a, b, c, e]"
    by (auto simp: length_Suc_conv numeral_eq_Suc)
  from assms(3) Y table_not_digit(2) [OF t] have "a \<noteq> 32" by auto
  then show ?thesis
    using table_value_le [OF t, of a] table_value_le [OF t, of b] table_value_le [OF t, of c]
      table_value_le [OF t, of e]
    by (simp add: Y py_int_u_def)
qed

lemma py_int_u_month:
  assumes t: "unicode_table tbl" and m: "month_text_u m"
  shows "1 \<le> py_int_u tbl m \<and> py_int_u tbl m \<le> 12"
proof (cases m rule: month_text_u.cases)
  case (1 a)
  with m have a: "between 49 57 a" by simp
  then have "between 48 57 a" "a \<noteq> 32" by (simp_all add: between_def)
  with table_ascii(3) [OF t, of a] a show ?thesis
    by (auto simp: 1 py_int_u_def between_def)
next
  case (2 a b)
  with m consider "a = 48" "between 49 57 b" | "a = 49" "between 48 50 b"
    by auto
  then show ?thesis
  proof cases
    case 1
    then have "between 48 57 a" "between 48 57 b" by (simp_all add: between_def)
    with table_ascii(3) [OF t, of a] table_ascii(3) [OF t, of b] 1 show ?thesis
      by (auto simp: 2 py_int_u_def between_def)
  next
    case 2
    then have "between 48 57 a" "between 48 57 b" by (simp_all add: between_def)
    with table_ascii(3) [OF t, of a] table_ascii(3) [OF t, of b] 2 show ?thesis
      by (auto simp: \<open>m = [a, b]\<close> py_int_u_def between_def)
  qed
qed (use m in simp_all)

lemma py_int_u_day:
  assumes t: "unicode_table tbl" and d: "day_text_u tbl d"
  shows "1 \<le> py_int_u tbl d"
proof (cases "(tbl, d)" rule: day_text_u.cases)
  case (1 tbl' a)
  with d have a: "between 49 57 a" by simp
  then have "between 48 57 a" "a \<noteq> 32" by (simp_all add: between_def)
  with table_ascii(3) [OF t, of a] a show ?thesis
    using 1 by (auto simp: py_int_u_def between_def)
next
  case (2 tbl' a b)
  then have dd: "d = [a, b]" by simp
  with d consider "a = 48" "between 49 57 b" | "a = 32" "between 49 57 b"
    | "between 49 50 a" | "a = 51"
    by auto
  then show ?thesis
  proof cases
    case 1
    then have "between 48 57 a" "between 48 57 b" by (simp_all add: between_def)
    with table_ascii(3) [OF t, of a] table_ascii(3) [OF t, of b] 1 show ?thesis
      by (auto simp: dd py_int_u_def between_def)
  next
    case 2
    then have "between 48 57 b" "b \<noteq> 32" by (simp_all add: between_def)
    with table_ascii(3) [OF t, of b] 2 show ?thesis
      by (auto simp: dd py_int_u_def between_def)
  next
    case 3
    then have "between 48 57 a" "a \<noteq> 32" by (simp_all add: between_def)
    with table_ascii(3) [OF t, of a] 3 show ?thesis
      by (auto simp: dd py_int_u_def between_def)
  next
    case 4
    then have "between 48 57 a" by (simp add: between_def)
    with table_ascii(3) [OF t, of a] 4 show ?thesis
      by (auto simp: dd py_int_u_def)
  qed
qed (use d in simp_all)

lemma strptime_u_accepts_iff:
  assumes t: "unicode_table tbl"
  shows "strptime_u tbl s \<noteq> None \<longleftrightarrow> accepted_deadline_u tbl s"
proof
  assume "strptime_u tbl s \<noteq> None"
  then obtain Y m d rest where
    hd: "regex_matches_u tbl s = (Y, m, d, []) # rest"
    and v: "valid_date (py_int_u tbl Y) (py_int_u tbl m) (py_int_u tbl d)"
    by (auto simp: strptime_u_def split: list.splits if_splits)
  from hd have "(Y, m, d, []) \<in> set (regex_matches_u tbl s)" by simp
  from in_regex_matches_u [OF this] v show "accepted_deadline_u tbl s"
    unfolding accepted_deadline_u_def valid_date_def
    by (intro exI [of _ Y] exI [of _ m] exI [of _ d]) simp
next
  assume "accepted_deadline_u tbl s"
  then obtain Y m d where s: "s = Y @ [45] @ m @ [45] @ d"
    and Y: "length Y = 4" "\<forall>c \<in> set Y. is_decimal tbl c"
    and m: "month_text_u m" and d: "day_text_u tbl d"
    and n: "py_int_u tbl Y \<noteq> 0" "py_int_u tbl d \<le> days_in_month (py_int_u tbl Y) (py_int_u tbl m)"
    unfolding accepted_deadline_u_def by blast
  from regex_matches_u_full [OF t Y m d] obtain rest where
    "regex_matches_u tbl s = (Y, m, d, []) # rest" unfolding s ..
  moreover have "valid_date (py_int_u tbl Y) (py_int_u tbl m) (py_int_u tbl d)"
    using n py_int_u_year [OF t Y] py_int_u_month [OF t m] py_int_u_day [OF t d]
    by (simp add: valid_date_def)
  ultimately show "strptime_u tbl s \<noteq> None"
    by (simp add: strptime_u_def)
qed

lemma strptime_u_2025_06_15:
  "strptime_u sample_table (latin1 ''2025-06-1'' @ [1637]) = Some (2025, 6, 15)"
  by (simp add: strptime_u_def regex_matches_u_def match_hyphen_u_def match_m_u_def match_d_u_def
      two_of_def one_of_def between_def is_decimal_def sample_table_def latin1_def py_int_u_def
      decimal_value_def valid_date_def days_in_month_def)

lemma strptime_u_2025_02_30: "strptime_u sample_table (latin1 ''2025-02-30'') = None"
  by (simp add: strptime_u_def regex_matches_u_def match_hyphen_u_def match_m_u_def match_d_u_def
      two_of_def one_of_def between_def is_decimal_def sample_table_def latin1_def py_int_u_def
      decimal_value_def valid_date_def days_in_month_def is_leap_def)

text \<open>
  C5, as amended. The deadline being any string of code points, the constructor fails with
  the deadline error exactly when the string is not one that \<^verbatim>\<open>strptime\<close> takes for
  \<^verbatim>\<open>%Y-%m-%d\<close>: see \<open>accepted_deadline_u\<close>. This holds for every table of decimal digits
  that has the ASCII digits with their values, does not have the hyphen and the blank, and
  gives no value above 9, as the table of every version of Unicode does. A month or a day of
  one digit is taken, a decimal digit of another script is taken in the year and as the
  second character of a day from 10 to 29, and a string that names no day of the calendar is
  refused.
\<close>

theorem constructor_fails_on_deadline_iff:
  "unicode_table tbl \<Longrightarrow>
   JobApplication_init_u tbl c p s imp = Inl InvalidDeadlineFormat \<longleftrightarrow> \<not> accepted_deadline_u tbl s"
  unfolding strptime_u_accepts_iff [symmetric]
  by (auto simp: JobApplication_init_u_def split: option.splits)

theorem constructor_fails_on_deadline_iff_witness:
  "unicode_table sample_table
   \<and> accepted_deadline_u sample_table (latin1 ''2025-06-1'' @ [1637])
   \<and> \<not> accepted_deadline_u sample_table (latin1 ''2025-02-30'')"
  using constructor_fails_on_deadline_iff [OF unicode_table_sample, of "''Acme''" "''Eng''" "latin1 ''2025-06-1'' @ [1637]" 5]
        constructor_fails_on_deadline_iff [OF unicode_table_sample, of "''Acme''" "''Eng''" "latin1 ''2025-02-30''" 5]
  by (simp add: JobApplication_init_u_def strptime_u_2025_06_15 strptime_u_2025_02_30 unicode_table_sample)

subsection \<open>The two readings of a deadline agree on 8-bit strings\<close>

lemma latin1_table_sample: "latin1_table sample_table"
  by (auto simp: latin1_table_def sample_table_def is_decimal_def between_def split: if_splits)

lemma code_point_char:
  "of_char c = (48::nat) \<longleftrightarrow> c = CHR ''0''" "of_char c = (49::nat) \<longleftrightarrow> c = CHR ''1''"
  "of_char c = (50::nat) \<longleftrightarrow> c = CHR ''2''" "of_char c = (51::nat) \<longleftrightarrow> c = CHR ''3''"
  "of_char c = (52::nat) \<longleftrightarrow> c = CHR ''4''" "of_char c = (53::nat) \<longleftrightarrow> c = CHR ''5''"
  "of_char c = (54::nat) \<longleftrightarrow> c = CHR ''6''" "of_char c = (55::nat) \<longleftrightarrow> c = CHR ''7''"
  "of_char c = (56::nat) \<longleftrightarrow> c = CHR ''8''" "of_char c = (57::nat) \<longleftrightarrow> c = CHR ''9''"
  "of_char c = (45::nat) \<longleftrightarrow> c = CHR ''-''" "of_char c = (32::nat) \<longleftrightarrow> c = CHR '' ''"
  using of_char_eq_iff [of c "CHR ''0''", where ?'a = nat] of_char_eq_iff [of c "CHR ''1''", where ?'a = nat]
    of_char_eq_iff [of c "CHR ''2''", where ?'a = nat] of_char_eq_iff [of c "CHR ''3''", where ?'a = nat]
    of_char_eq_iff [of c "CHR ''4''", where ?'a = nat] of_char_eq_iff [of c "CHR ''5''", where ?'a = nat]
    of_char_eq_iff [of c "CHR ''6''", where ?'a = nat] of_char_eq_iff [of c "CHR ''7''", where ?'a = nat]
    of_char_eq_iff [of c "CHR ''8''", where ?'a = nat] of_char_eq_iff [of c "CHR ''9''", where ?'a = nat]
    of_char_eq_iff [of c "CHR ''-''", where ?'a = nat] of_char_eq_iff [of c "CHR '' ''", where ?'a = nat]
  by simp_all

lemma between_cases:
  "between 48 57 n \<longleftrightarrow> n = 48 \<or> n = 49 \<or> n = 50 \<or> n = 51 \<or> n = 52 \<or> n = 53 \<or> n = 54 \<or> n = 55
     \<or> n = 56 \<or> n = 57"
  "between 49 57 n \<longleftrightarrow> n = 49 \<or> n = 50 \<or> n = 51 \<or> n = 52 \<or> n = 53 \<or> n = 54 \<or> n = 55
     \<or> n = 56 \<or> n = 57"
  "between 48 50 n \<longleftrightarrow> n = 48 \<or> n = 49 \<or> n = 50"
  "between 48 49 n \<longleftrightarrow> n = 48 \<or> n = 49"
  "between 49 50 n \<longleftrightarrow> n = 49 \<or> n = 50"
  "between k k n \<longleftrightarrow> n = k"
  unfolding between_def by arith+

lemma in_digits_iff: "c \<in> set digits \<longleftrightarrow> between 48 57 (of_char c)"
  unfolding between_cases code_point_char by (auto simp: digits_def)

lemma in_nonzero_digits_iff: "c \<in> set nonzero_digits \<longleftrightarrow> between 49 57 (of_char c)"
  unfolding between_cases code_point_char by (auto simp: nonzero_digits_def)

lemma in_small_class_iff:
  "c \<in> set ''012'' \<longleftrightarrow> between 48 50 (of_char c)"
  "c \<in> set ''01'' \<longleftrightarrow> between 48 49 (of_char c)"
  "c \<in> set ''12'' \<longleftrightarrow> between 49 50 (of_char c)"
  "c \<in> set ''0'' \<longleftrightarrow> between 48 48 (of_char c)"
  "c \<in> set ''1'' \<longleftrightarrow> between 49 49 (of_char c)"
  "c \<in> set ''3'' \<longleftrightarrow> between 51 51 (of_char c)"
  "c \<in> set '' '' \<longleftrightarrow> between 32 32 (of_char c)"
  unfolding between_cases code_point_char by auto

lemmas hyphen_iff = code_point_char(11)

lemmas blank_iff = code_point_char(12)

lemma is_decimal_latin1:
  assumes "unicode_table tbl" "latin1_table tbl"
  shows "is_decimal tbl (of_char c) \<longleftrightarrow> c \<in> set digits"
  using assms nat_of_char_less_256 [of c] table_ascii(2) [OF assms(1), of "of_char c"]
  unfolding in_digits_iff latin1_table_def by blast

lemma one_of_latin1:
  assumes "\<And>c. c \<in> set A \<longleftrightarrow> P (of_char c)"
  shows "one_of P (latin1 s) = map (map_prod latin1 latin1) (one_char A s)"
  by (cases s) (simp_all add: one_of_def one_char_def latin1_def assms)

lemma two_of_latin1:
  assumes "\<And>c. c \<in> set A \<longleftrightarrow> P (of_char c)" "\<And>c. c \<in> set B \<longleftrightarrow> Q (of_char c)"
  shows "two_of P Q (latin1 s) = map (map_prod latin1 latin1) (two_chars A B s)"
proof (cases s)
  case Nil
  then show ?thesis by (simp add: two_of_def two_chars_def latin1_def)
next
  case (Cons a rest)
  then show ?thesis
    by (cases rest) (simp_all add: two_of_def two_chars_def latin1_def assms)
qed

lemma match_hyphen_latin1: "match_hyphen_u (latin1 s) = map latin1 (match_hyphen s)"
  by (cases s) (simp_all add: match_hyphen_u_def match_hyphen_def latin1_def hyphen_iff)

lemma match_m_latin1: "match_m_u (latin1 s) = map (map_prod latin1 latin1) (match_m s)"
  unfolding match_m_u_def match_m_def map_append
  by (simp only: two_of_latin1 [OF in_small_class_iff(5) in_small_class_iff(1)]
      two_of_latin1 [OF in_small_class_iff(4) in_nonzero_digits_iff]
      one_of_latin1 [OF in_nonzero_digits_iff])

lemma match_d_latin1:
  assumes "unicode_table tbl" "latin1_table tbl"
  shows "match_d_u tbl (latin1 s) = map (map_prod latin1 latin1) (match_d s)"
  unfolding match_d_u_def match_d_def map_append
  by (simp only: two_of_latin1 [OF in_small_class_iff(6) in_small_class_iff(2)]
      two_of_latin1 [OF in_small_class_iff(3) is_decimal_latin1 [OF assms, symmetric]]
      two_of_latin1 [OF in_small_class_iff(4) in_nonzero_digits_iff]
      two_of_latin1 [OF in_small_class_iff(7) in_nonzero_digits_iff]
      one_of_latin1 [OF in_nonzero_digits_iff])

lemma match_Y_latin1:
  assumes "unicode_table tbl" "latin1_table tbl"
  shows "match_Y_u tbl (latin1 s) = map (map_prod latin1 latin1) (match_Y s)"
proof (cases s rule: match_Y.cases)
  case (1 a b c d rest)
  then show ?thesis
    by (simp add: latin1_def is_decimal_latin1 [OF assms])
qed (simp_all add: latin1_def)

lemma regex_matches_latin1:
  assumes "unicode_table tbl" "latin1_table tbl"
  shows "regex_matches_u tbl (latin1 s)
         = map (\<lambda>(Y, m, d, r). (latin1 Y, latin1 m, latin1 d, latin1 r)) (regex_matches s)"
  unfolding regex_matches_u_def regex_matches_def
  by (simp add: match_Y_latin1 [OF assms] match_d_latin1 [OF assms] match_m_latin1
      match_hyphen_latin1 map_concat comp_def split_def map_prod_def)

lemma py_int_latin1:
  assumes t: "unicode_table tbl" and "\<forall>c \<in> set s. c \<in> set digits \<or> c = CHR '' ''"
  shows "py_int_u tbl (latin1 s) = py_int s"
proof -
  have v: "decimal_value tbl (of_char c) = digit_value c" if "c \<in> set s" for c
  proof -
    from that assms(2) consider "c \<in> set digits" | "c = CHR '' ''" by blast
    then show ?thesis
    proof cases
      case 1
      then have "between 48 57 (of_char c)" by (simp add: in_digits_iff)
      from table_ascii(3) [OF t this] show ?thesis by (simp add: digit_value_def)
    next
      case 2
      with t show ?thesis
        by (simp add: decimal_value_def digit_value_def unicode_table_def)
    qed
  qed
  have "py_int_u tbl (latin1 s)
        = foldl (\<lambda>n c. 10 * n + decimal_value tbl (of_char c)) 0 (dropWhile (\<lambda>c. c = CHR '' '') s)"
    by (simp add: py_int_u_def latin1_def dropWhile_map foldl_map comp_def blank_iff)
  also have "\<dots> = py_int s"
    unfolding py_int_def
    by (rule foldl_cong) (auto dest!: set_dropWhileD simp: v)
  finally show ?thesis .
qed

lemma month_text_chars: "month_text m \<Longrightarrow> c \<in> set m \<Longrightarrow> c \<in> set digits"
  by (cases m rule: month_text.cases)
    (auto simp: in_digits_iff in_nonzero_digits_iff in_small_class_iff between_def)

lemma day_text_chars: "day_text d \<Longrightarrow> c \<in> set d \<Longrightarrow> c \<in> set digits \<or> c = CHR '' ''"
  by (cases d rule: day_text.cases)
    (auto simp: in_digits_iff in_nonzero_digits_iff in_small_class_iff between_def blank_iff [symmetric])

lemma strptime_u_latin1:
  assumes "unicode_table tbl" "latin1_table tbl"
  shows "strptime_u tbl (latin1 s) = strptime s"
proof (cases "regex_matches s")
  case Nil
  then show ?thesis
    by (simp add: strptime_u_def strptime_def regex_matches_latin1 [OF assms])
next
  case (Cons g rest)
  obtain Y m d r where g: "g = (Y, m, d, r)" by (cases g)
  from Cons g have "(Y, m, d, r) \<in> set (regex_matches s)" by simp
  from in_regex_matches [OF this] have Y: "set Y \<subseteq> set digits" and m: "month_text m" and d: "day_text d"
    by simp_all
  have "py_int_u tbl (latin1 Y) = py_int Y"
    using Y by (intro py_int_latin1 [OF assms(1)]) blast
  moreover have "py_int_u tbl (latin1 m) = py_int m"
    using month_text_chars [OF m] by (intro py_int_latin1 [OF assms(1)]) blast
  moreover have "py_int_u tbl (latin1 d) = py_int d"
    using day_text_chars [OF d] by (intro py_int_latin1 [OF assms(1)]) blast
  moreover have "latin1 r = [] \<longleftrightarrow> r = []"
    by (simp add: latin1_def)
  ultimately show ?thesis
    by (simp add: strptime_u_def strptime_def regex_matches_latin1 [OF assms] Cons g)
qed

lemma JobApplication_init_u_latin1:
  assumes "unicode_table tbl" "latin1_table tbl"
  shows "JobApplication_init_u tbl c p (latin1 dl) imp = JobApplication_init c p dl imp"
  by (simp add: JobApplication_init_u_def JobApplication_init_def strptime_u_latin1 [OF assms])

subsection \<open>A sample tracker\<close>

lemma strptime_2025_05_01: "strptime ''2025-05-01'' = Some (2025, 5, 1)"
  by code_simp

lemmas heap_eval = heappush_def heappop_def siftdown_def siftup_def siftdown_loop.simps
  siftup_loop.simps less_ref_def lt_def Let_def numeral_2_eq_2 numeral_3_eq_3








subsection \<open>Status updates and the listing\<close>

lemma lt_status_update [simp]:
  "lt (a\<lparr>status := s\<rparr>) b = lt a b" "lt a (b\<lparr>status := s\<rparr>) = lt a b"
  by (simp_all add: lt_def)






lemma strptime_2025_07_01: "strptime ''2025-07-01'' = Some (2025, 7, 1)"
  by code_simp

lemmas run_eval = add_application_ok [OF strptime_2025_06_01] add_application_ok [OF strptime_2025_05_01]
  add_application_ok [OF strptime_2025_07_01] process_next_application_def JobTracker_init_def heap_eval

subsection \<open>A pair added twice\<close>

text \<open>
  C6 fails on the code. After \<^verbatim>\<open>add_application("Acme", "Eng", "2025-06-01", 5)\<close> twice the
  heap holds both objects and the index holds the second one. The first
  \<^verbatim>\<open>process_next_application\<close> pops the first object and deletes the key, which pointed
  to the second object, still in the heap. The second call pops that object, and its
  \<^verbatim>\<open>del\<close> raises \<^verbatim>\<open>KeyError\<close>.
\<close>

theorem duplicate_key_raises:
  "jobs (snd (run_calls JobTracker_init adds_duplicate)) (''Acme'', ''Eng'') = Some 1
   \<and> job_heap (snd (run_calls JobTracker_init adds_duplicate)) = [0, 1]
   \<and> fst (run_calls JobTracker_init (adds_duplicate @ [ProcessNext, ProcessNext]))
       = [Printed Added, Printed Added, Returned (Some 0), Raised KeyError]
   \<and> jobs (snd (run_calls JobTracker_init (adds_duplicate @ [ProcessNext]))) (''Acme'', ''Eng'') = None
   \<and> job_heap (snd (run_calls JobTracker_init (adds_duplicate @ [ProcessNext]))) = [1]"
  by (simp add: adds_duplicate_def run_eval)

text \<open>
  C1 fails on the code, by the same \<^verbatim>\<open>del\<close>. After the three additions the objects 1
  (importance 5, the one the index holds for its pair) and 2 (importance 3) are in the heap.
  The first call returns object 0, the second pops object 1 and raises \<^verbatim>\<open>KeyError\<close>, the
  third returns object 2: object 1 is never returned.
\<close>

theorem stale_importance_order:
  "job_heap (snd (run_calls JobTracker_init adds_stale_importance)) = [0, 1, 2]
   \<and> jobs (snd (run_calls JobTracker_init adds_stale_importance)) (''Acme'', ''Eng'') = Some 1
   \<and> jobs (snd (run_calls JobTracker_init adds_stale_importance)) (''Globex'', ''PM'') = Some 2
   \<and> importance (objs (snd (run_calls JobTracker_init adds_stale_importance)) 1) = 5
   \<and> importance (objs (snd (run_calls JobTracker_init adds_stale_importance)) 2) = 3
   \<and> fst (run_calls (snd (run_calls JobTracker_init adds_stale_importance))
             [ProcessNext, ProcessNext, ProcessNext, ProcessNext])
       = [Returned (Some 0), Raised KeyError, Returned (Some 2), Returned None]"
  by (simp add: adds_stale_importance_def run_eval)

text \<open>
  C2 fails on the code, by the same \<^verbatim>\<open>del\<close>. Objects 1 and 2 have importance 5, and
  object 1 has the earlier deadline. The second call pops object 1 and raises
  \<^verbatim>\<open>KeyError\<close>, the third returns object 2: object 1 is never returned.
\<close>

theorem stale_deadline_order:
  "job_heap (snd (run_calls JobTracker_init adds_stale_deadline)) = [0, 1, 2]
   \<and> jobs (snd (run_calls JobTracker_init adds_stale_deadline)) (''Acme'', ''Eng'') = Some 1
   \<and> jobs (snd (run_calls JobTracker_init adds_stale_deadline)) (''Globex'', ''PM'') = Some 2
   \<and> importance (objs (snd (run_calls JobTracker_init adds_stale_deadline)) 1) = 5
   \<and> importance (objs (snd (run_calls JobTracker_init adds_stale_deadline)) 2) = 5
   \<and> deadline (objs (snd (run_calls JobTracker_init adds_stale_deadline)) 1) = (2025, 5, 1)
   \<and> deadline (objs (snd (run_calls JobTracker_init adds_stale_deadline)) 2) = (2025, 6, 1)
   \<and> fst (run_calls (snd (run_calls JobTracker_init adds_stale_deadline))
             [ProcessNext, ProcessNext, ProcessNext, ProcessNext])
       = [Returned (Some 0), Raised KeyError, Returned (Some 2), Returned None]"
  by (simp add: adds_stale_deadline_def run_eval)

subsection \<open>The heap operations keep the items\<close>

lemma mset_move_hole:
  assumes "i < length xs" "j < length xs" "i \<noteq> j"
  shows "mset (xs[i := xs ! j, j := v]) = mset (xs[i := v])"
proof -
  have a: "mset (xs[i := xs ! j, j := v]) = add_mset v (mset (xs[i := xs ! j]) - {#xs ! j#})"
    using assms by (simp add: mset_update)
  have b: "mset (xs[i := xs ! j]) = add_mset (xs ! j) (mset xs - {#xs ! i#})"
    using assms by (simp add: mset_update)
  show ?thesis
    using assms by (simp add: a b mset_update)
qed

lemma length_siftdown_loop [simp]: "length (siftdown_loop cmp x heap s pos) = length heap"
  by (induction cmp x heap s pos rule: siftdown_loop.induct)
     (subst siftdown_loop.simps, simp add: Let_def)

lemma mset_siftdown_loop:
  "pos < length heap \<Longrightarrow> mset (siftdown_loop cmp x heap s pos) = mset (heap[pos := x])"
proof (induction cmp x heap s pos rule: siftdown_loop.induct)
  case (1 cmp x heap s pos)
  show ?case
  proof (cases "s < pos \<and> cmp x (heap ! ((pos - 1) div 2))")
    case True
    then have pp: "(pos - 1) div 2 < pos" by auto
    have "mset (siftdown_loop cmp x (heap[pos := heap ! ((pos - 1) div 2)]) s ((pos - 1) div 2))
          = mset (heap[pos := heap ! ((pos - 1) div 2), (pos - 1) div 2 := x])"
      using "1.IH" [OF _ refl refl] True "1.prems" pp by simp
    also have "\<dots> = mset (heap[pos := x])"
      using "1.prems" pp by (intro mset_move_hole) auto
    finally show ?thesis
      using True by (subst siftdown_loop.simps) (simp add: Let_def)
  next
    case False
    then show ?thesis
      by (subst siftdown_loop.simps) (auto simp: Let_def)
  qed
qed

lemma mset_siftdown: "pos < length heap \<Longrightarrow> mset (siftdown cmp heap s pos) = mset heap"
  by (simp add: siftdown_def mset_siftdown_loop)

lemma siftup_loop_hole:
  "pos < length heap \<Longrightarrow> endpos = length heap \<Longrightarrow> siftup_loop cmp heap endpos pos = (heap', pos') \<Longrightarrow>
   length heap' = length heap \<and> pos' < length heap \<and> mset (heap'[pos' := x]) = mset (heap[pos := x])"
proof (induction cmp heap endpos pos arbitrary: heap' pos' rule: siftup_loop.induct)
  case (1 cmp heap endpos pos)
  let ?c = "if 2 * pos + 1 + 1 < endpos \<and> \<not> cmp (heap ! (2 * pos + 1)) (heap ! (2 * pos + 1 + 1))
            then 2 * pos + 1 + 1 else 2 * pos + 1"
  show ?case
  proof (cases "2 * pos + 1 < endpos")
    case True
    have c: "?c < length heap" "?c \<noteq> pos"
      using True "1.prems" by auto
    have rec: "siftup_loop cmp (heap[pos := heap ! ?c]) endpos ?c = (heap', pos')"
      using "1.prems"(3) True by (subst (asm) siftup_loop.simps) (auto simp: Let_def split: if_splits)
    have "length heap' = length (heap[pos := heap ! ?c]) \<and> pos' < length (heap[pos := heap ! ?c])
          \<and> mset (heap'[pos' := x]) = mset (heap[pos := heap ! ?c, ?c := x])"
      using c "1.prems"(2) by (intro "1.IH" [OF refl True refl refl _ _ rec]) simp_all
    moreover have "mset (heap[pos := heap ! ?c, ?c := x]) = mset (heap[pos := x])"
      using "1.prems"(1) c by (intro mset_move_hole) auto
    ultimately show ?thesis by simp
  next
    case False
    then show ?thesis
      using "1.prems" by (subst (asm) siftup_loop.simps) (auto simp: Let_def)
  qed
qed

lemma mset_siftup: "pos < length heap \<Longrightarrow> mset (siftup cmp heap pos) = mset heap"
proof -
  assume p: "pos < length heap"
  obtain heap' pos' where r: "siftup_loop cmp heap (length heap) pos = (heap', pos')"
    by (cases "siftup_loop cmp heap (length heap) pos")
  from siftup_loop_hole [OF p refl r, of "heap ! pos"] p
  show ?thesis
    by (simp add: siftup_def r mset_siftdown)
qed

lemma mset_heappush: "mset (heappush cmp heap item) = add_mset item (mset heap)"
  by (simp add: heappush_def mset_siftdown)

lemma heappop_nonempty:
  assumes "heap \<noteq> []"
  shows "\<exists>x heap'. heappop cmp heap = Inr (x, heap') \<and> mset heap = add_mset x (mset heap')"
proof (cases "butlast heap = []")
  case True
  with assms have "heap = [last heap]"
    by (metis append_butlast_last_id append_Nil)
  with True assms show ?thesis
    by (simp add: heappop_def Let_def)
next
  case False
  let ?b = "butlast heap"
  have h: "mset heap = add_mset (last heap) (mset ?b)"
    using assms by (metis append_butlast_last_id mset_append mset.simps union_mset_add_mset_right add.right_neutral)
  have l: "0 < length ?b"
    using False length_greater_0_conv by blast
  have "mset (siftup cmp (?b[0 := last heap]) 0) = mset (?b[0 := last heap])"
    by (intro mset_siftup) (simp only: length_list_update l)
  also have "\<dots> = add_mset (last heap) (mset ?b - {#?b ! 0#})"
    using l by (simp only: mset_update)
  finally have "add_mset (?b ! 0) (mset (siftup cmp (?b[0 := last heap]) 0)) = mset heap"
    using l h nth_mem_mset [OF l] by (simp add: add_mset_commute)
  then show ?thesis
    using assms False by (simp add: heappop_def Let_def)
qed

subsection \<open>The index mirrors the heap\<close>

lemma set_heappush: "set (heappush cmp heap x) = insert x (set heap)"
  using mset_heappush [of cmp heap x, THEN arg_cong [where f = set_mset]] by simp

lemma distinct_heappush: "distinct (heappush cmp heap x) \<longleftrightarrow> x \<notin> set heap \<and> distinct heap"
proof -
  have "mset (heappush cmp heap x) = mset (x # heap)" by (simp add: mset_heappush)
  from mset_eq_imp_distinct_iff [OF this] show ?thesis by simp
qed

lemma heappop_distinct:
  assumes "heap \<noteq> []"
  shows "\<exists>x heap'. heappop cmp heap = Inr (x, heap') \<and> set heap = insert x (set heap')
           \<and> (distinct heap \<longrightarrow> distinct heap' \<and> x \<notin> set heap')"
proof -
  from heappop_nonempty [OF assms] obtain x heap' where
    p: "heappop cmp heap = Inr (x, heap')" and m: "mset heap = add_mset x (mset heap')"
    by blast
  from m have m': "mset heap = mset (x # heap')" by simp
  have "set heap = insert x (set heap')"
    using mset_eq_setD [OF m'] by simp
  moreover have "distinct heap \<longleftrightarrow> distinct (x # heap')"
    by (rule mset_eq_imp_distinct_iff [OF m'])
  ultimately show ?thesis using p by auto
qed

lemma tracker_inv_init: "tracker_inv JobTracker_init"
  by (simp add: tracker_inv_def JobTracker_init_def)

lemma tracker_inv_mirrors:
  assumes "tracker_inv t"
  shows "index_mirrors_heap t"
proof -
  from assms have m: "\<And>k r. jobs t k = Some r \<longleftrightarrow> r \<in> set (job_heap t) \<and> key_of (objs t r) = k"
    unfolding tracker_inv_def by blast
  have "dom (jobs t) = (\<lambda>r. key_of (objs t r)) ` set (job_heap t)"
  proof (intro set_eqI iffI)
    fix k assume "k \<in> dom (jobs t)"
    then obtain r where "jobs t k = Some r" by blast
    with m [of k r] have "r \<in> set (job_heap t)" "key_of (objs t r) = k" by simp_all
    then show "k \<in> (\<lambda>r. key_of (objs t r)) ` set (job_heap t)" by (simp add: image_iff) metis
  next
    fix k assume "k \<in> (\<lambda>r. key_of (objs t r)) ` set (job_heap t)"
    then obtain r where "r \<in> set (job_heap t)" "k = key_of (objs t r)" by blast
    with m [of k r] have "jobs t k = Some r" by simp
    then show "k \<in> dom (jobs t)" by (rule domI)
  qed
  moreover have "\<forall>r \<in> set (job_heap t). jobs t (key_of (objs t r)) = Some r"
    by (simp add: m)
  ultimately show ?thesis
    unfolding index_mirrors_heap_def by blast
qed

lemma key_of_init: "JobApplication_init c p dl imp = Inr job \<Longrightarrow> key_of job = (c, p)"
  by (auto simp: JobApplication_init_def key_of_def split: option.splits if_splits)

lemma add_application_inv:
  assumes i: "JobApplication_init c p dl imp = Inr job" and inv: "tracker_inv t"
    and fresh: "\<forall>r \<in> set (job_heap t). key_of (objs t r) \<noteq> (c, p)"
  shows "tracker_inv (snd (add_application t c p dl imp))
         \<and> (\<lambda>r. key_of (objs (snd (add_application t c p dl imp)) r)) ` set (job_heap (snd (add_application t c p dl imp)))
             = insert (c, p) ((\<lambda>r. key_of (objs t r)) ` set (job_heap t))"
proof -
  let ?r = "next_ref t"
  let ?t' = "snd (add_application t c p dl imp)"
  have o: "objs ?t' = (objs t)(?r := job)" and n: "next_ref ?t' = ?r + 1"
    and h: "job_heap ?t' = heappush (less_ref ((objs t)(?r := job))) (job_heap t) ?r"
    and j: "jobs ?t' = (jobs t)((c, p) \<mapsto> ?r)"
    by (simp_all add: add_application_def i Let_def)
  from inv have d: "distinct (job_heap t)" and b: "\<forall>r \<in> set (job_heap t). r < ?r"
    and m: "\<And>k r. jobs t k = Some r \<longleftrightarrow> r \<in> set (job_heap t) \<and> key_of (objs t r) = k"
    by (auto simp: tracker_inv_def)
  from b have nr: "?r \<notin> set (job_heap t)" by auto
  have s: "set (job_heap ?t') = insert ?r (set (job_heap t))"
    by (simp add: h set_heappush)
  have "distinct (job_heap ?t')"
    using d nr by (simp add: h distinct_heappush)
  moreover have "\<forall>r \<in> set (job_heap ?t'). r < next_ref ?t'"
    using b by (auto simp: s n)
  moreover have "jobs ?t' k = Some r \<longleftrightarrow> r \<in> set (job_heap ?t') \<and> key_of (objs ?t' r) = k" for k r
  proof (cases "r = ?r")
    case True
    have "jobs t k \<noteq> Some ?r" using m [of k ?r] nr by blast
    then have "jobs ?t' k = Some ?r \<longleftrightarrow> k = (c, p)"
      unfolding j by (cases "k = (c, p)") simp_all
    moreover have "key_of (objs ?t' ?r) = (c, p)"
      unfolding o using key_of_init [OF i] by simp
    ultimately show ?thesis
      unfolding True s by (simp only: insertI1) blast
  next
    case False
    have ko: "key_of (objs ?t' r) = key_of (objs t r)"
      unfolding o using False by simp
    show ?thesis
    proof (cases "k = (c, p)")
      case True
      have "jobs ?t' k \<noteq> Some r" unfolding j True using False by simp
      moreover have "\<not> (r \<in> set (job_heap t) \<and> key_of (objs t r) = k)"
        unfolding True using fresh by blast
      ultimately show ?thesis
        unfolding s ko using False by blast
    next
      case kF: False
      have "jobs ?t' k = jobs t k" unfolding j using kF by simp
      then show ?thesis
        unfolding s ko using m [of k r] False by simp
    qed
  qed
  moreover have "(\<lambda>r. key_of (objs ?t' r)) ` set (job_heap ?t')
                 = insert (c, p) ((\<lambda>r. key_of (objs t r)) ` set (job_heap t))"
  proof -
    have "(\<lambda>r. key_of (objs ?t' r)) ` set (job_heap t) = (\<lambda>r. key_of (objs t r)) ` set (job_heap t)"
      by (rule image_cong [OF refl]) (use nr in \<open>auto simp: o\<close>)
    moreover have "key_of (objs ?t' ?r) = (c, p)"
      unfolding o using key_of_init [OF i] by simp
    ultimately show ?thesis
      unfolding s by (simp only: image_insert)
  qed
  ultimately show ?thesis by (simp add: tracker_inv_def)
qed

lemma process_next_inv:
  assumes inv: "tracker_inv t"
  shows "(\<exists>r. fst (process_next_application t) = Inr r)
         \<and> tracker_inv (snd (process_next_application t))
         \<and> (\<lambda>r. key_of (objs (snd (process_next_application t)) r)) ` set (job_heap (snd (process_next_application t)))
             \<subseteq> (\<lambda>r. key_of (objs t r)) ` set (job_heap t)"
proof (cases "job_heap t = []")
  case True
  with inv show ?thesis by (simp add: process_next_empty)
next
  case False
  from heappop_distinct [OF False, of "less_ref (objs t)"] obtain x heap' where
    p: "heappop (less_ref (objs t)) (job_heap t) = Inr (x, heap')"
    and s: "set (job_heap t) = insert x (set heap')"
    and d: "distinct (job_heap t) \<longrightarrow> distinct heap' \<and> x \<notin> set heap'"
    by blast
  from inv have dd: "distinct (job_heap t)" and b: "\<forall>r \<in> set (job_heap t). r < next_ref t"
    and m: "\<And>k r. jobs t k = Some r \<longleftrightarrow> r \<in> set (job_heap t) \<and> key_of (objs t r) = k"
    by (auto simp: tracker_inv_def)
  let ?store = "(objs t)(x := (objs t x)\<lparr>status := ''Processed''\<rparr>)"
  let ?key = "key_of (objs t x)"
  have k: "key_of (?store r) = key_of (objs t r)" for r
    by (simp add: key_of_def)
  have jx: "jobs t ?key = Some x"
    using m [of ?key x] s by simp
  let ?t' = "t\<lparr>job_heap := heap', objs := ?store, jobs := (jobs t)(?key := None)\<rparr>"
  have res: "process_next_application t = (Inr (Some x), ?t')"
    using False p jx by (simp add: process_next_application_def Let_def key_of_def)
  have "jobs ?t' k' = Some r \<longleftrightarrow> r \<in> set (job_heap ?t') \<and> key_of (objs ?t' r) = k'" for k' r
  proof -
    have "jobs ?t' k' = Some r \<longleftrightarrow> k' \<noteq> ?key \<and> r \<in> set (job_heap t) \<and> key_of (objs t r) = k'"
      using m [of k' r] by auto
    also have "\<dots> \<longleftrightarrow> r \<in> set heap' \<and> key_of (objs t r) = k'"
      using s d dd m [of ?key r] jx by auto
    finally show ?thesis by (simp add: k del: fun_upd_apply)
  qed
  moreover have "distinct (job_heap ?t')" using d dd by simp
  moreover have "\<forall>r \<in> set (job_heap ?t'). r < next_ref ?t'" using b s by auto
  moreover have "(\<lambda>r. key_of (objs ?t' r)) ` set (job_heap ?t') \<subseteq> (\<lambda>r. key_of (objs t r)) ` set (job_heap t)"
    using s by (auto simp: k simp del: fun_upd_apply)
  ultimately show ?thesis
    unfolding res by (simp add: tracker_inv_def del: fun_upd_apply)
qed


lemma add_application_failed:
  "JobApplication_init c p dl imp = Inl e \<Longrightarrow> add_application t c p dl imp = (Error e, t)"
  by (simp add: add_application_def)

lemma add_application_added:
  "JobApplication_init c p dl imp = Inr job \<Longrightarrow> fst (add_application t c p dl imp) = Added"
  by (simp add: add_application_def Let_def)

lemma run_calls_inv:
  "tracker_inv t \<Longrightarrow> distinct (added_keys cs) \<Longrightarrow>
   \<forall>r \<in> set (job_heap t). key_of (objs t r) \<notin> set (added_keys cs) \<Longrightarrow>
   (\<forall>out \<in> set (fst (run_calls t cs)). \<forall>e. out \<noteq> Raised e) \<and> tracker_inv (snd (run_calls t cs))"
proof (induction cs arbitrary: t)
  case Nil
  then show ?case by simp
next
  case (Cons call cs)
  show ?case
  proof (cases call)
    case (Add c p dl imp)
    show ?thesis
    proof (cases "JobApplication_init c p dl imp")
      case (Inl e)
      have "(\<forall>out \<in> set (fst (run_calls t cs)). \<forall>e. out \<noteq> Raised e) \<and> tracker_inv (snd (run_calls t cs))"
        using Cons.prems by (intro Cons.IH) (simp_all add: Add Inl)
      then show ?thesis
        by (simp add: Add add_application_failed [OF Inl] case_prod_beta)
    next
      case (Inr job)
      let ?t' = "snd (add_application t c p dl imp)"
      have fresh: "\<forall>r \<in> set (job_heap t). key_of (objs t r) \<noteq> (c, p)"
        using Cons.prems(3) by (auto simp: Add Inr)
      note step = add_application_inv [OF Inr Cons.prems(1) fresh]
      have "\<forall>r \<in> set (job_heap ?t'). key_of (objs ?t' r) \<notin> set (added_keys cs)"
      proof
        fix r assume "r \<in> set (job_heap ?t')"
        then have "key_of (objs ?t' r) \<in> insert (c, p) ((\<lambda>r. key_of (objs t r)) ` set (job_heap t))"
          using step by blast
        then show "key_of (objs ?t' r) \<notin> set (added_keys cs)"
          using Cons.prems(2,3) by (auto simp: Add Inr)
      qed
      moreover have "distinct (added_keys cs)"
        using Cons.prems(2) by (simp add: Add Inr)
      ultimately have "(\<forall>out \<in> set (fst (run_calls ?t' cs)). \<forall>e. out \<noteq> Raised e)
                       \<and> tracker_inv (snd (run_calls ?t' cs))"
        using step by (intro Cons.IH) simp_all
      then show ?thesis
        by (simp add: Add case_prod_beta)
    qed
  next
    case ProcessNext
    let ?t' = "snd (process_next_application t)"
    note step = process_next_inv [OF Cons.prems(1)]
    have "\<forall>r \<in> set (job_heap ?t'). key_of (objs ?t' r) \<notin> set (added_keys cs)"
    proof
      fix r assume "r \<in> set (job_heap ?t')"
      then have "key_of (objs ?t' r) \<in> (\<lambda>r. key_of (objs t r)) ` set (job_heap t)"
        using step by blast
      then show "key_of (objs ?t' r) \<notin> set (added_keys cs)"
        using Cons.prems(3) by (auto simp: ProcessNext)
    qed
    moreover have "distinct (added_keys cs)"
      using Cons.prems(2) by (simp add: ProcessNext)
    ultimately have ih: "(\<forall>out \<in> set (fst (run_calls ?t' cs)). \<forall>e. out \<noteq> Raised e)
                     \<and> tracker_inv (snd (run_calls ?t' cs))"
      using step by (intro Cons.IH) simp_all
    from step obtain r where r: "fst (process_next_application t) = Inr r" by blast
    with ih show ?thesis
      by (simp add: ProcessNext case_prod_beta)
  qed
qed

text \<open>
  C3. Start from the empty tracker and make any sequence of \<^verbatim>\<open>add_application\<close> and
  \<^verbatim>\<open>process_next_application\<close> calls in which the pairs added are distinct. Then no call
  raises, and afterwards the keys of the index are the pairs of the objects in the heap and
  each such pair is mapped to the object of the heap that bears it.
\<close>

theorem index_mirrors_heap_after_calls:
  "distinct (added_keys cs) \<Longrightarrow>
   (\<forall>out \<in> set (fst (run_calls JobTracker_init cs)). \<forall>e. out \<noteq> Raised e)
   \<and> index_mirrors_heap (snd (run_calls JobTracker_init cs))"
  using run_calls_inv [OF tracker_inv_init, of cs]
  by (simp add: JobTracker_init_def tracker_inv_mirrors)


lemma calls_distinct_keys: "distinct (added_keys calls_distinct)"
  by (simp add: calls_distinct_def JobApplication_init_def strptime_2025_06_01 strptime_2025_05_01)

lemma calls_distinct_run:
  "fst (run_calls JobTracker_init calls_distinct)
     = [Printed Added, Printed Added, Printed Added, Returned (Some 2)]
   \<and> job_heap (snd (run_calls JobTracker_init calls_distinct)) = [1, 0]
   \<and> jobs (snd (run_calls JobTracker_init calls_distinct)) (''Initech'', ''Ops'') = None"
  by (simp add: calls_distinct_def run_eval)

theorem index_mirrors_heap_after_calls_witness:
  "distinct (added_keys calls_distinct)
   \<and> fst (run_calls JobTracker_init calls_distinct)
       = [Printed Added, Printed Added, Printed Added, Returned (Some 2)]
   \<and> index_mirrors_heap (snd (run_calls JobTracker_init calls_distinct))
   \<and> job_heap (snd (run_calls JobTracker_init calls_distinct)) = [1, 0]
   \<and> jobs (snd (run_calls JobTracker_init calls_distinct)) (''Initech'', ''Ops'') = None"
  using index_mirrors_heap_after_calls [OF calls_distinct_keys] calls_distinct_keys calls_distinct_run
  by blast

subsection \<open>The heap operations keep the heap property\<close>

text \<open>
  For a comparison that is the strict order of a key, \<^verbatim>\<open>heappush\<close> and \<^verbatim>\<open>heappop\<close>
  turn heaps into heaps, and \<^verbatim>\<open>heappop\<close> returns the first item, whose key is minimal.
\<close>

lemma parent_less: "0 < (i::nat) \<Longrightarrow> (i - 1) div 2 < i"
  by arith

lemma is_heap_root_min: "is_heap f h \<Longrightarrow> i < length h \<Longrightarrow> f (h ! 0) \<le> f (h ! i)"
proof (induction i rule: less_induct)
  case (less i)
  show ?case
  proof (cases "i = 0")
    case True
    then show ?thesis by simp
  next
    case False
    then have p: "(i - 1) div 2 < i" by (intro parent_less) simp
    have "f (h ! 0) \<le> f (h ! ((i - 1) div 2))"
      using less.IH [OF p less.prems(1)] p less.prems(2) by simp
    also have "\<dots> \<le> f (h ! i)"
      using less.prems False by (simp add: is_heap_def)
    finally show ?thesis .
  qed
qed

lemma place_item_heap:
  assumes e: "heap_except f h pos" and a: "above_children f h pos x" and p: "pos < length h"
    and top: "pos = 0 \<or> f (h ! ((pos - 1) div 2)) \<le> f x"
  shows "is_heap f (h[pos := x])"
  unfolding is_heap_def
proof (intro allI impI)
  fix i assume i: "0 < i \<and> i < length (h[pos := x])"
  then have il: "i < length h" and i0: "0 < i" by simp_all
  have pl: "(i - 1) div 2 < i" using i0 by (rule parent_less)
  show "f (h[pos := x] ! ((i - 1) div 2)) \<le> f (h[pos := x] ! i)"
  proof (cases "i = pos")
    case True
    then have "pos \<noteq> 0" using i0 by simp
    with top have "f (h ! ((pos - 1) div 2)) \<le> f x" by simp
    then show ?thesis using True pl p by simp
  next
    case False
    show ?thesis
    proof (cases "(i - 1) div 2 = pos")
      case True
      then have "f x \<le> f (h ! i)" using a i0 il by (simp add: above_children_def)
      then show ?thesis using True False p by simp
    next
      case pF: False
      then have "f (h ! ((i - 1) div 2)) \<le> f (h ! i)"
        using e i0 il False by (simp add: heap_except_def)
      then show ?thesis using False pF by simp
    qed
  qed
qed

lemma siftdown_loop_heap:
  "heap_except f h pos \<Longrightarrow> hole_children_ok f h pos \<Longrightarrow> above_children f h pos x \<Longrightarrow>
   pos < length h \<Longrightarrow> is_heap f (siftdown_loop (\<lambda>a b. f a < f b) x h 0 pos)"
proof (induction pos arbitrary: h rule: less_induct)
  case (less pos)
  let ?pp = "(pos - 1) div 2"
  show ?case
  proof (cases "0 < pos \<and> f x < f (h ! ?pp)")
    case False
    then have top: "pos = 0 \<or> f (h ! ?pp) \<le> f x" by auto
    have "siftdown_loop (\<lambda>a b. f a < f b) x h 0 pos = h[pos := x]"
      using False by (subst siftdown_loop.simps) (auto simp: Let_def)
    then show ?thesis
      using place_item_heap [OF less.prems(1,3,4) top] by simp
  next
    case True
    then have pp: "?pp < pos" by (intro parent_less) simp
    from True have xl: "f x \<le> f (h ! ?pp)" by (auto intro: less_imp_le)
    let ?h1 = "h[pos := h ! ?pp]"
    have unfold: "siftdown_loop (\<lambda>a b. f a < f b) x h 0 pos = siftdown_loop (\<lambda>a b. f a < f b) x ?h1 0 ?pp"
      using True by (subst siftdown_loop.simps) (simp add: Let_def)
    have old: "\<And>i. 0 < i \<Longrightarrow> i < length h \<Longrightarrow> i \<noteq> pos \<Longrightarrow> (i - 1) div 2 \<noteq> pos \<Longrightarrow>
                 f (h ! ((i - 1) div 2)) \<le> f (h ! i)"
      using less.prems(1) by (simp add: heap_except_def)
    have kids: "\<And>i. 0 < i \<Longrightarrow> i < length h \<Longrightarrow> (i - 1) div 2 = pos \<Longrightarrow> f (h ! ?pp) \<le> f (h ! i)"
      using less.prems(2) True by (simp add: hole_children_ok_def)
    have e1: "heap_except f ?h1 ?pp"
      unfolding heap_except_def
    proof (intro allI impI)
      fix i assume i: "0 < i \<and> i < length ?h1 \<and> i \<noteq> ?pp \<and> (i - 1) div 2 \<noteq> ?pp"
      then have ne: "i \<noteq> pos" by auto
      show "f (?h1 ! ((i - 1) div 2)) \<le> f (?h1 ! i)"
      proof (cases "(i - 1) div 2 = pos")
        case True
        then show ?thesis using kids [of i] i ne less.prems(4) by simp
      next
        case False
        then show ?thesis using old [of i] i ne by simp
      qed
    qed
    have c1: "hole_children_ok f ?h1 ?pp"
      unfolding hole_children_ok_def
    proof (intro allI impI)
      fix i assume p0: "0 < ?pp" and i: "0 < i \<and> i < length ?h1 \<and> (i - 1) div 2 = ?pp"
      have gp: "(?pp - 1) div 2 < ?pp" using p0 by (rule parent_less)
      have g: "f (h ! ((?pp - 1) div 2)) \<le> f (h ! ?pp)"
        using old [of ?pp] p0 pp gp less.prems(4) by simp
      have "f (h ! ?pp) \<le> f (?h1 ! i)"
      proof (cases "i = pos")
        case True
        then show ?thesis using less.prems(4) by simp
      next
        case False
        then show ?thesis using old [of i] i pp by simp
      qed
      with g have "f (h ! ((?pp - 1) div 2)) \<le> f (?h1 ! i)" by (rule order_trans)
      then show "f (?h1 ! ((?pp - 1) div 2)) \<le> f (?h1 ! i)"
        using gp pp by simp
    qed
    have a1: "above_children f ?h1 ?pp x"
      unfolding above_children_def
    proof (intro allI impI)
      fix i assume i: "0 < i \<and> i < length ?h1 \<and> (i - 1) div 2 = ?pp"
      show "f x \<le> f (?h1 ! i)"
      proof (cases "i = pos")
        case True
        then show ?thesis using xl less.prems(4) by simp
      next
        case False
        then have "f (h ! ?pp) \<le> f (h ! i)" using old [of i] i pp by simp
        then show ?thesis using xl False by simp
      qed
    qed
    have "is_heap f (siftdown_loop (\<lambda>a b. f a < f b) x ?h1 0 ?pp)"
      using pp less.prems(4) by (intro less.IH [OF pp e1 c1 a1]) simp
    then show ?thesis by (simp only: unfold)
  qed
qed

lemma is_heap_heappush:
  assumes "is_heap f h"
  shows "is_heap f (heappush (\<lambda>a b. f a < f b) h x)"
proof -
  let ?h = "h @ [x]"
  have e: "heap_except f ?h (length h)"
    unfolding heap_except_def
  proof (intro allI impI)
    fix i assume i: "0 < i \<and> i < length ?h \<and> i \<noteq> length h \<and> (i - 1) div 2 \<noteq> length h"
    then have il: "i < length h" by simp
    then have "(i - 1) div 2 < length h" using parent_less [of i] i by simp
    then show "f (?h ! ((i - 1) div 2)) \<le> f (?h ! i)"
      using assms i il by (simp add: is_heap_def nth_append)
  qed
  have nokids: "\<And>i. 0 < i \<Longrightarrow> i < length ?h \<Longrightarrow> (i - 1) div 2 \<noteq> length h"
  proof -
    fix i :: nat assume "0 < i" "i < length ?h"
    then have "(i - 1) div 2 < i" "i \<le> length h" using parent_less [of i] by simp_all
    then show "(i - 1) div 2 \<noteq> length h" by arith
  qed
  have c: "hole_children_ok f ?h (length h)"
    unfolding hole_children_ok_def using nokids by blast
  have a: "above_children f ?h (length h) x"
    unfolding above_children_def using nokids by blast
  have "is_heap f (siftdown_loop (\<lambda>a b. f a < f b) x ?h 0 (length h))"
    by (rule siftdown_loop_heap [OF e c a]) simp
  then show ?thesis
    by (simp add: heappush_def siftdown_def)
qed


lemma child_cases:
  "0 < (i::nat) \<Longrightarrow> (i - 1) div 2 = pos \<longleftrightarrow> i = 2 * pos + 1 \<or> i = 2 * pos + 2"
  by arith

lemma heap_except_update: "heap_except f (h[pos := v]) pos = heap_except f h pos"
  by (simp add: heap_except_def)

lemma siftup_loop_inv:
  "heap_except f h pos \<Longrightarrow> hole_children_ok f h pos \<Longrightarrow> pos < length h \<Longrightarrow>
   siftup_loop (\<lambda>a b. f a < f b) h (length h) pos = (h', pos') \<Longrightarrow>
   heap_except f h' pos' \<and> length h' = length h \<and> pos' < length h \<and> \<not> 2 * pos' + 1 < length h"
proof (induction "length h - pos" arbitrary: h pos rule: less_induct)
  case less
  let ?n = "length h"
  let ?l = "2 * pos + 1"
  let ?r = "2 * pos + 1 + 1"
  show ?case
  proof (cases "?l < ?n")
    case False
    then have "siftup_loop (\<lambda>a b. f a < f b) h ?n pos = (h, pos)"
      by (subst siftup_loop.simps) (simp add: Let_def)
    with less.prems False show ?thesis by simp
  next
    case True
    let ?c = "if ?r < ?n \<and> \<not> f (h ! ?l) < f (h ! ?r) then ?r else ?l"
    let ?h1 = "h[pos := h ! ?c]"
    have rec: "siftup_loop (\<lambda>a b. f a < f b) ?h1 ?n ?c = (h', pos')"
      using less.prems(4) True by (subst (asm) siftup_loop.simps) (auto simp: Let_def split: if_splits)
    have cn: "?c < ?n" and cp: "pos < ?c" and cpar: "(?c - 1) div 2 = pos"
      using True by auto
    have smallest: "f (h ! ?c) \<le> f (h ! i)" if "0 < i" "i < ?n" "(i - 1) div 2 = pos" for i
    proof -
      have "i = ?l \<or> i = ?r" using child_cases [OF that(1), of pos] that(3) by simp
      then show ?thesis using that(2) by (auto simp: not_less)
    qed
    have old: "\<And>i. 0 < i \<Longrightarrow> i < ?n \<Longrightarrow> i \<noteq> pos \<Longrightarrow> (i - 1) div 2 \<noteq> pos \<Longrightarrow>
                 f (h ! ((i - 1) div 2)) \<le> f (h ! i)"
      using less.prems(1) by (simp add: heap_except_def)
    have kids: "\<And>i. 0 < i \<Longrightarrow> i < ?n \<Longrightarrow> (i - 1) div 2 = pos \<Longrightarrow> 0 < pos \<Longrightarrow>
                  f (h ! ((pos - 1) div 2)) \<le> f (h ! i)"
      using less.prems(2) by (simp add: hole_children_ok_def)
    have e1: "heap_except f ?h1 ?c"
      unfolding heap_except_def
    proof (intro allI impI)
      fix i assume i: "0 < i \<and> i < length ?h1 \<and> i \<noteq> ?c \<and> (i - 1) div 2 \<noteq> ?c"
      then have i0: "0 < i" and il: "i < ?n" by simp_all
      have pl: "(i - 1) div 2 < i" using i0 by (rule parent_less)
      show "f (?h1 ! ((i - 1) div 2)) \<le> f (?h1 ! i)"
      proof (cases "i = pos")
        case True
        then have p0: "0 < pos" using i0 by simp
        have c0: "0 < ?c" using cp by arith
        have "f (h ! ((pos - 1) div 2)) \<le> f (h ! ?c)"
          by (rule kids [OF c0 cn cpar p0])
        then show ?thesis using True pl less.prems(3) by simp
      next
        case False
        show ?thesis
        proof (cases "(i - 1) div 2 = pos")
          case True
          then have "f (h ! ?c) \<le> f (h ! i)" using smallest [of i] i0 il by simp
          then show ?thesis using True False less.prems(3) by simp
        next
          case pF: False
          then show ?thesis using old [of i] i0 il False by simp
        qed
      qed
    qed
    have c1: "hole_children_ok f ?h1 ?c"
      unfolding hole_children_ok_def
    proof (intro allI impI)
      fix i assume i: "0 < i \<and> i < length ?h1 \<and> (i - 1) div 2 = ?c"
      then have i0: "0 < i" and il: "i < ?n" and ip: "(i - 1) div 2 = ?c" by simp_all
      have ic: "?c < i" using parent_less [OF i0] ip by simp
      then have ne: "i \<noteq> pos" using cp by simp
      have "f (h ! ?c) \<le> f (h ! i)"
        using old [of i] i0 il ne ip cp by simp
      then show "f (?h1 ! ((?c - 1) div 2)) \<le> f (?h1 ! i)"
        using ne less.prems(3) by (simp only: cpar nth_list_update_eq nth_list_update_neq [OF ne [symmetric]])
    qed
    have "heap_except f h' pos' \<and> length h' = length ?h1 \<and> pos' < length ?h1 \<and> \<not> 2 * pos' + 1 < length ?h1"
    proof (rule less.hyps [OF _ e1 c1])
      show "length ?h1 - ?c < ?n - pos" using cn cp by simp
      show "?c < length ?h1" using cn by simp
      show "siftup_loop (\<lambda>a b. f a < f b) ?h1 (length ?h1) ?c = (h', pos')" using rec by simp
    qed
    then show ?thesis by simp
  qed
qed

lemma siftup_heap:
  assumes e: "heap_except f h 0" and n: "0 < length h"
  shows "is_heap f (siftup (\<lambda>a b. f a < f b) h 0)"
proof -
  obtain h' pos' where r: "siftup_loop (\<lambda>a b. f a < f b) h (length h) 0 = (h', pos')"
    by (cases "siftup_loop (\<lambda>a b. f a < f b) h (length h) 0")
  have c0: "hole_children_ok f h 0" by (simp add: hole_children_ok_def)
  from siftup_loop_inv [OF e c0 n r] have
    e': "heap_except f h' pos'" and l: "length h' = length h" and p: "pos' < length h"
    and leaf: "\<not> 2 * pos' + 1 < length h" by simp_all
  let ?x = "h ! 0"
  let ?h2 = "h'[pos' := ?x]"
  have nokids: "\<And>i. 0 < i \<Longrightarrow> i < length ?h2 \<Longrightarrow> (i - 1) div 2 \<noteq> pos'"
  proof -
    fix i :: nat assume i: "0 < i" "i < length ?h2"
    show "(i - 1) div 2 \<noteq> pos'"
    proof
      assume "(i - 1) div 2 = pos'"
      then have "i = 2 * pos' + 1 \<or> i = 2 * pos' + 2" using child_cases [OF i(1), of pos'] by simp
      with i(2) leaf l show False by auto
    qed
  qed
  have "is_heap f (siftdown_loop (\<lambda>a b. f a < f b) ?x ?h2 0 pos')"
  proof (rule siftdown_loop_heap)
    show "heap_except f ?h2 pos'" using e' by (simp add: heap_except_update)
    show "hole_children_ok f ?h2 pos'" unfolding hole_children_ok_def using nokids by blast
    show "above_children f ?h2 pos' ?x" unfolding above_children_def using nokids by blast
    show "pos' < length ?h2" using p l by simp
  qed
  then show ?thesis
    using p l by (simp add: siftup_def r siftdown_def Let_def)
qed

lemma is_heap_heappop:
  assumes h: "is_heap f heap" and p: "heappop (\<lambda>a b. f a < f b) heap = Inr (x, heap')"
  shows "is_heap f heap' \<and> x = heap ! 0 \<and> (\<forall>y \<in> set heap. f x \<le> f y)"
proof -
  from p have ne: "heap \<noteq> []" by (auto simp: heappop_def)
  have root: "\<forall>y \<in> set heap. f (heap ! 0) \<le> f y"
    using is_heap_root_min [OF h] by (auto simp: in_set_conv_nth)
  show ?thesis
  proof (cases "butlast heap = []")
    case True
    then have "heap = [last heap]" using ne by (metis append_butlast_last_id append_Nil)
    then have "heap ! 0 = last heap" by (metis nth_Cons_0)
    with p True ne root show ?thesis
      by (auto simp: heappop_def Let_def is_heap_def)
  next
    case False
    let ?b = "butlast heap"
    have l: "0 < length ?b" using False length_greater_0_conv by blast
    have x: "x = ?b ! 0" and r: "heap' = siftup (\<lambda>a b. f a < f b) (?b[0 := last heap]) 0"
      using p ne False by (auto simp: heappop_def Let_def)
    have b0: "?b ! 0 = heap ! 0" using l by (simp only: nth_butlast)
    have e: "heap_except f (?b[0 := last heap]) 0"
      unfolding heap_except_def
    proof (intro allI impI)
      fix i assume i: "0 < i \<and> i < length (?b[0 := last heap]) \<and> i \<noteq> 0 \<and> (i - 1) div 2 \<noteq> 0"
      then have il: "i < length ?b" by simp
      then have il': "i < length heap" by simp
      have pl: "(i - 1) div 2 < length ?b" using parent_less [of i] i il by simp
      have "f (heap ! ((i - 1) div 2)) \<le> f (heap ! i)"
        using h i il' by (simp add: is_heap_def)
      then show "f (?b[0 := last heap] ! ((i - 1) div 2)) \<le> f (?b[0 := last heap] ! i)"
        using i il pl by (simp add: nth_butlast)
    qed
    have "is_heap f heap'"
      unfolding r using l by (intro siftup_heap [OF e]) simp
    then show ?thesis using x b0 root by simp
  qed
qed

subsection \<open>The order of processing\<close>

text \<open>
  Every sequence of calls keeps the heap list a heap. On a tracker whose index mirrors its
  heap (\<open>tracker_inv\<close>), as many calls of \<^verbatim>\<open>process_next_application\<close> as the heap has
  objects all return, and they return the objects in the order of \<^verbatim>\<open>__lt__\<close>: an object
  comes before every object it is below. The sequences of calls that add distinct pairs lead
  to such trackers.
\<close>

lemma lt_prio: "lt a b \<longleftrightarrow> prio a < prio b"
  by (auto simp: lt_def prio_def less_prod_def)

lemma less_ref_prio: "less_ref store = (\<lambda>a b. prio (store a) < prio (store b))"
  by (intro ext) (simp add: less_ref_def lt_prio)

lemma prio_status [simp]: "prio (job\<lparr>status := s\<rparr>) = prio job"
  by (simp add: prio_def)

lemma is_heap_cong: "(\<And>x. x \<in> set h \<Longrightarrow> f x = g x) \<Longrightarrow> is_heap f h = is_heap g h"
proof -
  assume eq: "\<And>x. x \<in> set h \<Longrightarrow> f x = g x"
  have "f (h ! i) = g (h ! i)" if "i < length h" for i
    using eq that by simp
  moreover have "(i - 1) div 2 < length h" if "0 < i" "i < length h" for i
    using parent_less [OF that(1)] that(2) by simp
  ultimately show ?thesis
    unfolding is_heap_def by (metis (no_types, lifting))
qed

lemma heap_inv_init: "heap_inv JobTracker_init"
  by (simp add: heap_inv_def JobTracker_init_def is_heap_def)

lemma add_application_heap_inv:
  assumes "heap_inv t"
  shows "heap_inv (snd (add_application t c p dl imp))"
proof (cases "JobApplication_init c p dl imp")
  case (Inl e)
  with assms show ?thesis by (simp add: add_application_failed)
next
  case (Inr job)
  let ?r = "next_ref t"
  let ?store = "(objs t)(?r := job)"
  let ?t' = "snd (add_application t c p dl imp)"
  have o: "objs ?t' = ?store" and n: "next_ref ?t' = ?r + 1"
    and h: "job_heap ?t' = heappush (less_ref ?store) (job_heap t) ?r"
    by (simp_all add: add_application_def Inr Let_def)
  from assms have b: "\<forall>r \<in> set (job_heap t). r < ?r"
    and hp: "is_heap (\<lambda>r. prio (objs t r)) (job_heap t)"
    by (simp_all add: heap_inv_def)
  have "is_heap (\<lambda>r. prio (?store r)) (job_heap t)"
    using hp b by (subst is_heap_cong [where g = "\<lambda>r. prio (objs t r)"]) auto
  then have "is_heap (\<lambda>r. prio (?store r)) (job_heap ?t')"
    unfolding h less_ref_prio by (rule is_heap_heappush)
  moreover have "\<forall>r \<in> set (job_heap ?t'). r < next_ref ?t'"
    using b by (auto simp: h n set_heappush)
  ultimately show ?thesis
    by (simp add: heap_inv_def o)
qed

lemma process_next_heap:
  assumes ne: "job_heap t \<noteq> []"
  shows "\<exists>x heap'. heappop (less_ref (objs t)) (job_heap t) = Inr (x, heap')
           \<and> job_heap (snd (process_next_application t)) = heap'
           \<and> objs (snd (process_next_application t)) = (objs t)(x := (objs t x)\<lparr>status := ''Processed''\<rparr>)
           \<and> next_ref (snd (process_next_application t)) = next_ref t
           \<and> (fst (process_next_application t) = Inr (Some x)
               \<or> fst (process_next_application t) = Inl KeyError)"
proof -
  from heappop_nonempty [OF ne, of "less_ref (objs t)"] obtain x heap' where
    p: "heappop (less_ref (objs t)) (job_heap t) = Inr (x, heap')" by blast
  show ?thesis
    using ne by (auto simp: process_next_application_def p Let_def)
qed

lemma process_next_heap_inv:
  assumes "heap_inv t"
  shows "heap_inv (snd (process_next_application t))"
proof (cases "job_heap t = []")
  case True
  with assms show ?thesis by (simp add: process_next_empty)
next
  case False
  let ?t' = "snd (process_next_application t)"
  from process_next_heap [OF False] obtain x heap' where
    p: "heappop (less_ref (objs t)) (job_heap t) = Inr (x, heap')"
    and h: "job_heap ?t' = heap'"
    and o: "objs ?t' = (objs t)(x := (objs t x)\<lparr>status := ''Processed''\<rparr>)"
    and n: "next_ref ?t' = next_ref t"
    by blast
  from assms have b: "\<forall>r \<in> set (job_heap t). r < next_ref t"
    and hp: "is_heap (\<lambda>r. prio (objs t r)) (job_heap t)"
    by (simp_all add: heap_inv_def)
  from heappop_distinct [OF False, of "less_ref (objs t)"] p
  have s: "set (job_heap t) = insert x (set heap')" by simp
  have "is_heap (\<lambda>r. prio (objs t r)) heap'"
    using is_heap_heappop [OF hp p [unfolded less_ref_prio]] by simp
  moreover have "(\<lambda>r. prio (objs ?t' r)) = (\<lambda>r. prio (objs t r))"
    by (intro ext) (simp add: o)
  ultimately show ?thesis
    using b s by (simp add: heap_inv_def h n)
qed

lemma run_calls_heap_inv: "heap_inv t \<Longrightarrow> heap_inv (snd (run_calls t cs))"
proof (induction cs arbitrary: t)
  case Nil
  then show ?case by simp
next
  case (Cons call cs)
  show ?case
  proof (cases call)
    case (Add c p dl imp)
    then show ?thesis
      using Cons.IH [OF add_application_heap_inv [OF Cons.prems, of c p dl imp]]
      by (simp add: case_prod_beta)
  next
    case ProcessNext
    then show ?thesis
      using Cons.IH [OF process_next_heap_inv [OF Cons.prems]]
      by (simp add: case_prod_beta split: sum.splits)
  qed
qed


lemma process_all_sorted:
  "tracker_inv t \<Longrightarrow> heap_inv t \<Longrightarrow> length (job_heap t) = n \<Longrightarrow>
   \<exists>rs. fst (run_calls t (replicate n ProcessNext)) = map (\<lambda>r. Returned (Some r)) rs
        \<and> mset rs = mset (job_heap t) \<and> sorted (map (\<lambda>r. prio (objs t r)) rs)"
proof (induction n arbitrary: t)
  case 0
  then show ?case by simp
next
  case (Suc n)
  let ?t' = "snd (process_next_application t)"
  from Suc.prems(3) have ne: "job_heap t \<noteq> []" by auto
  from process_next_heap [OF ne] obtain x heap' where
    p: "heappop (less_ref (objs t)) (job_heap t) = Inr (x, heap')"
    and h: "job_heap ?t' = heap'"
    and o: "objs ?t' = (objs t)(x := (objs t x)\<lparr>status := ''Processed''\<rparr>)"
    and res: "fst (process_next_application t) = Inr (Some x) \<or> fst (process_next_application t) = Inl KeyError"
    by blast
  from process_next_inv [OF Suc.prems(1)] res
  have ret: "fst (process_next_application t) = Inr (Some x)" and inv': "tracker_inv ?t'"
    by auto
  have hinv': "heap_inv ?t'" by (rule process_next_heap_inv [OF Suc.prems(2)])
  from heappop_nonempty [OF ne, of "less_ref (objs t)"] p
  have m: "mset (job_heap t) = add_mset x (mset heap')" by simp
  then have "length (job_heap t) = Suc (length heap')"
    by (metis size_mset size_add_mset)
  with Suc.prems(3) have len: "length (job_heap ?t') = n" by (simp add: h)
  from Suc.IH [OF inv' hinv' len] obtain rs where
    outs: "fst (run_calls ?t' (replicate n ProcessNext)) = map (\<lambda>r. Returned (Some r)) rs"
    and mrs: "mset rs = mset heap'" and srt: "sorted (map (\<lambda>r. prio (objs ?t' r)) rs)"
    by (auto simp: h)
  have same: "(\<lambda>r. prio (objs ?t' r)) = (\<lambda>r. prio (objs t r))"
    by (intro ext) (simp add: o)
  from Suc.prems(2) have hp: "is_heap (\<lambda>r. prio (objs t r)) (job_heap t)"
    by (simp add: heap_inv_def)
  have least: "\<forall>y \<in> set (job_heap t). prio (objs t x) \<le> prio (objs t y)"
    using is_heap_heappop [OF hp p [unfolded less_ref_prio]] by blast
  have "set rs \<subseteq> set (job_heap t)"
    using mset_eq_setD [OF mrs] m [THEN arg_cong [where f = set_mset]] by auto
  with least have "\<forall>y \<in> set rs. prio (objs t x) \<le> prio (objs t y)" by blast
  with srt have "sorted (map (\<lambda>r. prio (objs t r)) (x # rs))"
    by (simp add: same)
  moreover have "mset (x # rs) = mset (job_heap t)"
    by (simp add: mrs m)
  moreover have "fst (run_calls t (replicate (Suc n) ProcessNext)) = map (\<lambda>r. Returned (Some r)) (x # rs)"
    using ret outs by (simp add: case_prod_beta)
  ultimately show ?case by blast
qed

lemma processed_in_priority_order:
  assumes "tracker_inv t" and "heap_inv t"
    and A: "A \<in> set (job_heap t)" and B: "B \<in> set (job_heap t)"
    and ab: "lt (objs t A) (objs t B)"
  shows "\<exists>rs i j. fst (run_calls t (replicate (length (job_heap t)) ProcessNext))
                    = map (\<lambda>r. Returned (Some r)) rs
              \<and> i < j \<and> j < length rs \<and> rs ! i = A \<and> rs ! j = B"
proof -
  from process_all_sorted [OF assms(1,2) refl] obtain rs where
    outs: "fst (run_calls t (replicate (length (job_heap t)) ProcessNext)) = map (\<lambda>r. Returned (Some r)) rs"
    and mrs: "mset rs = mset (job_heap t)" and srt: "sorted (map (\<lambda>r. prio (objs t r)) rs)"
    by blast
  from mset_eq_setD [OF mrs] A B have "A \<in> set rs" "B \<in> set rs" by simp_all
  then obtain i j where i: "i < length rs" "rs ! i = A" and j: "j < length rs" "rs ! j = B"
    by (auto simp: in_set_conv_nth)
  have "i < j"
  proof (rule ccontr)
    assume "\<not> i < j"
    then have "j \<le> i" by simp
    with srt i(1) have "map (\<lambda>r. prio (objs t r)) rs ! j \<le> map (\<lambda>r. prio (objs t r)) rs ! i"
      by (intro sorted_nth_mono) simp_all
    then have "prio (objs t B) \<le> prio (objs t A)"
      using i j by simp
    with ab show False by (simp add: lt_prio)
  qed
  with outs i j show ?thesis by blast
qed

lemma distinct_calls_invariants:
  assumes "distinct (added_keys cs)"
  shows "tracker_inv (snd (run_calls JobTracker_init cs)) \<and> heap_inv (snd (run_calls JobTracker_init cs))"
  using run_calls_inv [OF tracker_inv_init assms] run_calls_heap_inv [OF heap_inv_init, of cs]
  by (simp add: JobTracker_init_def)

end
